theory Spec2Isabelle
  imports Main
begin

section \<open>The BuildGraph executor: data model\<close>

text \<open>
  The program is the \<^verbatim>\<open>Build\<close> command of AutomationTool (C#): \<^verbatim>\<open>Execute\<close>,
  \<^verbatim>\<open>FindAvailableTasks\<close>, \<^verbatim>\<open>IsPublicAssembly\<close>, \<^verbatim>\<open>FindCompletedNodes\<close>,
  \<^verbatim>\<open>BuildAllNodes\<close>, \<^verbatim>\<open>BuildSingleNode\<close> and \<^verbatim>\<open>FindFileToOutputNameMapping\<close>.
  The classes it works on (\<^verbatim>\<open>Node\<close>, \<^verbatim>\<open>AgentGroup\<close>, \<^verbatim>\<open>ManualTrigger\<close>, \<^verbatim>\<open>Graph\<close>,
  \<^verbatim>\<open>TempStorage\<close>, \<^verbatim>\<open>TempStorageManifest\<close>) are declared elsewhere; their fields are
  modelled as the command reads them.

  A \<^verbatim>\<open>Node\<close> and a \<^verbatim>\<open>ManualTrigger\<close> are objects compared by reference. Here they are
  values compared by content; the graph gives every node and every trigger a name of its
  own, so two different objects never have the same content.
  A \<^verbatim>\<open>ManualTrigger\<close>'s \<^verbatim>\<open>Parent\<close> chain is finite (a value of a datatype), so the loop
  that walks it ends.
\<close>

type_synonym FileReference = string

datatype ManualTrigger =
  ManualTrigger (Trigger_Name: string) (Parent: "ManualTrigger option")

datatype Node =
  Node (Name: string) (InputNames: "string list") (OutputNames: "string list")
       (InputDependencies: "Node list") (ControllingTrigger: "ManualTrigger option")

record AgentGroup =
  GroupName :: string
  Nodes :: "Node list"

text \<open>The dictionaries of the graph are association lists, read with \<^const>\<open>map_of\<close>.\<close>

record Graph =
  Groups :: "AgentGroup list"
  NameToNode :: "(string \<times> Node) list"
  OutputNameToNode :: "(string \<times> Node) list"
  NameToTrigger :: "(string \<times> ManualTrigger) list"

record TempStorageManifest =
  Files :: "string list"

text \<open>
  The exceptions the command can raise: a dictionary indexed at a missing key, a method
  called on \<^verbatim>\<open>null\<close>, and \<^verbatim>\<open>TempStorage.Retreive\<close> finding no manifest.
\<close>

datatype error =
  KeyNotFound string
  | NullReference string
  | MissingOutput string string

text \<open>
  \<^verbatim>\<open>Dictionary<string, HashSet<FileReference>>\<close>: a key is absent (\<open>None\<close>), bound to
  \<^verbatim>\<open>null\<close> (\<open>Some None\<close>) or bound to a set of files (\<open>Some (Some fs)\<close>). A
  \<^verbatim>\<open>HashSet\<close> is a list in the order it enumerates; \<^const>\<open>remdups\<close> builds one from a
  sequence.
\<close>

type_synonym TagNameToFileSet = "string \<Rightarrow> FileReference list option option"

text \<open>
  What the command does to the world outside its own variables, in the order it does it:
  the calls on \<^verbatim>\<open>TempStorage\<close>, the calls of \<^verbatim>\<open>Node.Build\<close>, the errors it logs, and
  the schema, print and export calls.
\<close>

datatype Event =
  EvLogError string
  | EvCleanLocal
  | EvCleanLocalNode string
  | EvCheckLocalIntegrity string
  | EvIsComplete string
  | EvRetreive string string
  | EvBuild string
  | EvArchive string string "FileReference list" bool
  | EvMarkAsComplete string
  | EvSchemaExport string
  | EvPrint "string list" bool bool
  | EvExport string "ManualTrigger list" "string list"

text \<open>
  Reflection data read by \<^verbatim>\<open>FindAvailableTasks\<close>: a loaded assembly has a location (a
  path, as its fragments) and types; a type has a name, the fact whether it derives
  from \<^verbatim>\<open>CustomTask\<close>, and its \<^verbatim>\<open>TaskElementAttribute\<close>s (name and parameters type).
\<close>

record TaskElementAttribute =
  AttrName :: string
  ParametersType :: string

record ReflectedType =
  TypeName :: string
  IsSubclassOfCustomTask :: bool
  TaskElementAttributes :: "TaskElementAttribute list"

record Assembly =
  Location :: "string list"
  Types :: "ReflectedType list"

record ScriptTask =
  TaskName :: string
  TaskType :: string
  TaskParametersType :: string

text \<open>
  The collaborators of the command that are not part of it, taken as parameters: the
  methods of \<^verbatim>\<open>TempStorage\<close> over a storage state \<open>'s\<close>, \<^verbatim>\<open>Node.Build\<close> (it receives
  the tag dictionary and may change it), \<^verbatim>\<open>TempStorageFile.ToFileReference(RootDir)\<close>,
  \<^verbatim>\<open>FileReference.MakeRelativeTo(RootDir)\<close>,
  \<^verbatim>\<open>ScriptReader.TryRead\<close>, \<^verbatim>\<open>Graph.TryResolveReference\<close>, \<^verbatim>\<open>Graph.Select\<close>, the
  assemblies loaded in the process and the engine directory. A collaborator returns;
  the one exception modelled is the failure of \<^verbatim>\<open>Retreive\<close>.
\<close>

record 's Collaborators =
  IsComplete :: "'s \<Rightarrow> string \<Rightarrow> bool"
  MarkAsComplete :: "'s \<Rightarrow> string \<Rightarrow> 's"
  CheckLocalIntegrity :: "'s \<Rightarrow> string \<Rightarrow> string list \<Rightarrow> bool"
  CleanLocalNode :: "'s \<Rightarrow> string \<Rightarrow> 's"
  CleanLocal :: "'s \<Rightarrow> 's"
  Retreive :: "'s \<Rightarrow> string \<Rightarrow> string \<Rightarrow> error + (TempStorageManifest \<times> 's)"
  Archive :: "'s \<Rightarrow> string \<Rightarrow> string \<Rightarrow> FileReference list \<Rightarrow> bool \<Rightarrow> 's"
  NodeBuild :: "Node \<Rightarrow> TagNameToFileSet \<Rightarrow> bool \<times> TagNameToFileSet"
  ToFileReference :: "string \<Rightarrow> FileReference"
  MakeRelativeTo :: "FileReference \<Rightarrow> string"
  TryRead :: "string \<Rightarrow> Graph option"
  TryResolveReference :: "Graph \<Rightarrow> string \<Rightarrow> Node list option"
  Select :: "Graph \<Rightarrow> Node list \<Rightarrow> Graph"
  LoadedAssemblies :: "Assembly list"
  EngineDirectory :: "string list"

section \<open>BuildSingleNode\<close>

text \<open>\<^verbatim>\<open>Graph.Groups.SelectMany(x => x.Nodes)\<close>: the flat list of the graph's nodes.\<close>

definition AllNodes :: "Graph \<Rightarrow> Node list" where
  "AllNodes G = concat (map Nodes (Groups G))"

text \<open>
  The first loop of \<^verbatim>\<open>BuildSingleNode\<close>: every output name of every node of the graph is
  bound to \<^verbatim>\<open>null\<close>.
\<close>

definition SeedTagNames :: "Graph \<Rightarrow> TagNameToFileSet" where
  "SeedTagNames G =
     fold (\<lambda>OutputName m. m(OutputName \<mapsto> None)) (concat (map OutputNames (AllNodes G))) Map.empty"

text \<open>
  The second loop: for each input name, the producing node is looked up in
  \<^verbatim>\<open>OutputNameToNode\<close> (an exception when the key is missing), its manifest is retrieved
  (an exception when \<^verbatim>\<open>Retreive\<close> fails) and the tag is bound to the manifest's files.
  The result keeps the storage state and the calls made, also when an exception ends
  the loop.
\<close>

fun FetchInputs ::
  "'s Collaborators \<Rightarrow> Graph \<Rightarrow> string list \<Rightarrow> TagNameToFileSet \<Rightarrow> 's
     \<Rightarrow> (error + TagNameToFileSet) \<times> 's \<times> Event list" where
  "FetchInputs c G [] m s = (Inr m, s, [])"
| "FetchInputs c G (InputName # rest) m s =
     (case map_of (OutputNameToNode G) InputName of
        None \<Rightarrow> (Inl (KeyNotFound InputName), s, [])
      | Some InputNode \<Rightarrow>
          (case Retreive c s (Name InputNode) InputName of
             Inl e \<Rightarrow> (Inl e, s, [EvRetreive (Name InputNode) InputName])
           | Inr (Manifest, s') \<Rightarrow>
               (case FetchInputs c G rest
                       (m(InputName \<mapsto> Some (remdups (map (ToFileReference c) (Files Manifest))))) s' of
                  (r, s'', ev) \<Rightarrow> (r, s'', EvRetreive (Name InputNode) InputName # ev))))"

text \<open>The third loop: the node's own output names are bound to empty sets.\<close>

definition PlaceholderOutputs :: "Node \<Rightarrow> TagNameToFileSet \<Rightarrow> TagNameToFileSet" where
  "PlaceholderOutputs n m = fold (\<lambda>OutputName m'. m'(OutputName \<mapsto> Some [])) (OutputNames n) m"

text \<open>The dictionary handed to \<^verbatim>\<open>Node.Build\<close>: the three loops in sequence.\<close>

definition AssembleTagNames ::
  "'s Collaborators \<Rightarrow> Graph \<Rightarrow> Node \<Rightarrow> 's \<Rightarrow> (error + TagNameToFileSet) \<times> 's \<times> Event list" where
  "AssembleTagNames c G n s =
     (case FetchInputs c G (InputNames n) (SeedTagNames G) s of
        (Inl e, s1, ev) \<Rightarrow> (Inl e, s1, ev)
      | (Inr m, s1, ev) \<Rightarrow> (Inr (PlaceholderOutputs n m), s1, ev))"

text \<open>
  \<^verbatim>\<open>ReferencedOutputs\<close>: the input names of every node of a group that does not contain
  the node, and of every node of a group that contains it whose controlling trigger
  differs from the node's. The \<^verbatim>\<open>HashSet<string>\<close> is read only with \<^verbatim>\<open>Contains\<close>, so
  the list of what was added stands for it.
\<close>

definition ReferencedOutputs :: "Graph \<Rightarrow> Node \<Rightarrow> string list" where
  "ReferencedOutputs G n =
     concat (map (\<lambda>Group.
       let bSameGroup = (n \<in> set (Nodes Group)) in
       concat (map (\<lambda>OtherNode.
         if \<not> bSameGroup \<or> ControllingTrigger n \<noteq> ControllingTrigger OtherNode
         then InputNames OtherNode else []) (Nodes Group))) (Groups G))"

text \<open>
  The publishing loop: \<^verbatim>\<open>TagNameToFileSet[OutputName].ToArray()\<close> raises when the build
  removed the key or bound it to \<^verbatim>\<open>null\<close>; otherwise the output is archived, with the
  flag \<^verbatim>\<open>ReferencedOutputs.Contains(OutputName)\<close>.
\<close>

fun ArchiveOutputs ::
  "'s Collaborators \<Rightarrow> Node \<Rightarrow> string list \<Rightarrow> TagNameToFileSet \<Rightarrow> string list \<Rightarrow> 's
     \<Rightarrow> (error + unit) \<times> 's \<times> Event list" where
  "ArchiveOutputs c n refd m [] s = (Inr (), s, [])"
| "ArchiveOutputs c n refd m (OutputName # rest) s =
     (case m OutputName of
        None \<Rightarrow> (Inl (KeyNotFound OutputName), s, [])
      | Some None \<Rightarrow> (Inl (NullReference OutputName), s, [])
      | Some (Some fs) \<Rightarrow>
          (case ArchiveOutputs c n refd m rest
                  (Archive c s (Name n) OutputName fs (OutputName \<in> set refd)) of
             (r, s', ev) \<Rightarrow> (r, s', EvArchive (Name n) OutputName fs (OutputName \<in> set refd) # ev)))"

text \<open>
  \<^verbatim>\<open>BuildSingleNode\<close>. The result is \<open>Inr True\<close> or \<open>Inr False\<close> as the method
  returns, \<open>Inl e\<close> when it raises \<open>e\<close>; with it come the storage state and the calls
  made.
\<close>

definition BuildSingleNode ::
  "'s Collaborators \<Rightarrow> Graph \<Rightarrow> Node \<Rightarrow> 's \<Rightarrow> (error + bool) \<times> 's \<times> Event list" where
  "BuildSingleNode c G n s =
     (case AssembleTagNames c G n s of
        (Inl e, s1, ev1) \<Rightarrow> (Inl e, s1, ev1)
      | (Inr m, s1, ev1) \<Rightarrow>
          (case NodeBuild c n m of
             (False, m') \<Rightarrow> (Inr False, s1, ev1 @ [EvBuild (Name n)])
           | (True, m') \<Rightarrow>
               (case ArchiveOutputs c n (ReferencedOutputs G n) m' (OutputNames n) s1 of
                  (Inl e, s2, ev2) \<Rightarrow> (Inl e, s2, ev1 @ [EvBuild (Name n)] @ ev2)
                | (Inr u, s2, ev2) \<Rightarrow>
                    (Inr True, MarkAsComplete c s2 (Name n),
                     ev1 @ [EvBuild (Name n)] @ ev2 @ [EvMarkAsComplete (Name n)]))))"

section \<open>FindFileToOutputNameMapping\<close>

text \<open>
  The inner loop over the files of one output: a file already in \<^verbatim>\<open>FileToOutputName\<close>
  logs an error and clears the result; any other file is added under the output's name.
  The flag returned is \<open>True\<close> when no file of this output was already owned.
\<close>

fun AddOutputFiles ::
  "'s Collaborators \<Rightarrow> string \<Rightarrow> FileReference list \<Rightarrow> (FileReference \<times> string) list
     \<Rightarrow> bool \<times> (FileReference \<times> string) list \<times> Event list" where
  "AddOutputFiles c OutputName [] FileToOutputName = (True, FileToOutputName, [])"
| "AddOutputFiles c OutputName (File # rest) FileToOutputName =
     (case map_of FileToOutputName File of
        Some ExistingOutputName \<Rightarrow>
          (case AddOutputFiles c OutputName rest FileToOutputName of
             (b, d, ev) \<Rightarrow>
               (False, d,
                EvLogError (''Build product is added to multiple outputs; '' @ MakeRelativeTo c File
                  @ '' added to '' @ ExistingOutputName @ '' and '' @ OutputName) # ev))
      | None \<Rightarrow> AddOutputFiles c OutputName rest (FileToOutputName @ [(File, OutputName)]))"

text \<open>
  The outer loop over the node's output names. \<^verbatim>\<open>TryGetValue\<close> skips a name that is not
  a key; a key bound to \<^verbatim>\<open>null\<close> makes the \<^verbatim>\<open>foreach\<close> raise.
\<close>

fun FindFileToOutputNameLoop ::
  "'s Collaborators \<Rightarrow> TagNameToFileSet \<Rightarrow> string list \<Rightarrow> (FileReference \<times> string) list
     \<Rightarrow> (error + bool) \<times> (FileReference \<times> string) list \<times> Event list" where
  "FindFileToOutputNameLoop c m [] FileToOutputName = (Inr True, FileToOutputName, [])"
| "FindFileToOutputNameLoop c m (OutputName # rest) FileToOutputName =
     (case m OutputName of
        None \<Rightarrow> FindFileToOutputNameLoop c m rest FileToOutputName
      | Some None \<Rightarrow> (Inl (NullReference OutputName), FileToOutputName, [])
      | Some (Some FileSet) \<Rightarrow>
          (case AddOutputFiles c OutputName FileSet FileToOutputName of
             (b1, d1, ev1) \<Rightarrow>
               (case FindFileToOutputNameLoop c m rest d1 of
                  (Inl e, d2, ev2) \<Rightarrow> (Inl e, d2, ev1 @ ev2)
                | (Inr b2, d2, ev2) \<Rightarrow> (Inr (b1 \<and> b2), d2, ev1 @ ev2))))"

definition FindFileToOutputNameMapping ::
  "'s Collaborators \<Rightarrow> Node \<Rightarrow> TagNameToFileSet \<Rightarrow> (FileReference \<times> string) list
     \<Rightarrow> (error + bool) \<times> (FileReference \<times> string) list \<times> Event list" where
  "FindFileToOutputNameMapping c n m FileToOutputName =
     FindFileToOutputNameLoop c m (OutputNames n) FileToOutputName"

section \<open>BuildAllNodes\<close>

text \<open>
  The integrity pass. \<^verbatim>\<open>||\<close> is short-circuit: \<^verbatim>\<open>CheckLocalIntegrity\<close> is called only
  when no input dependency is in \<^verbatim>\<open>CleanedNodes\<close>. The result is the final
  \<^verbatim>\<open>CleanedNodes\<close>, the storage state and the calls made.
\<close>

fun IntegrityPass ::
  "'s Collaborators \<Rightarrow> Node list \<Rightarrow> Node list \<Rightarrow> 's \<Rightarrow> Node list \<times> 's \<times> Event list" where
  "IntegrityPass c [] CleanedNodes s = (CleanedNodes, s, [])"
| "IntegrityPass c (NodeToExecute # rest) CleanedNodes s =
     (if list_ex (\<lambda>x. x \<in> set CleanedNodes) (InputDependencies NodeToExecute) then
        (case IntegrityPass c rest (List.insert NodeToExecute CleanedNodes)
                (CleanLocalNode c s (Name NodeToExecute)) of
           (cl, s', ev) \<Rightarrow> (cl, s', EvCleanLocalNode (Name NodeToExecute) # ev))
      else if \<not> CheckLocalIntegrity c s (Name NodeToExecute) (OutputNames NodeToExecute) then
        (case IntegrityPass c rest (List.insert NodeToExecute CleanedNodes)
                (CleanLocalNode c s (Name NodeToExecute)) of
           (cl, s', ev) \<Rightarrow>
             (cl, s', EvCheckLocalIntegrity (Name NodeToExecute)
                        # EvCleanLocalNode (Name NodeToExecute) # ev))
      else
        (case IntegrityPass c rest CleanedNodes s of
           (cl, s', ev) \<Rightarrow> (cl, s', EvCheckLocalIntegrity (Name NodeToExecute) # ev)))"

text \<open>
  The execution loop: a node that is complete is skipped; the first
  \<^verbatim>\<open>BuildSingleNode\<close> that returns false (or raises) ends the loop. The \<^verbatim>\<open>Log\<close> calls
  write progress lines to the console and are left out.
\<close>

fun ExecuteNodes ::
  "'s Collaborators \<Rightarrow> Graph \<Rightarrow> Node list \<Rightarrow> 's \<Rightarrow> (error + bool) \<times> 's \<times> Event list" where
  "ExecuteNodes c G [] s = (Inr True, s, [])"
| "ExecuteNodes c G (NodeToExecute # rest) s =
     (if \<not> IsComplete c s (Name NodeToExecute) then
        (case BuildSingleNode c G NodeToExecute s of
           (Inr True, s1, ev1) \<Rightarrow>
             (case ExecuteNodes c G rest s1 of
                (r, s2, ev2) \<Rightarrow> (r, s2, EvIsComplete (Name NodeToExecute) # ev1 @ ev2))
         | (Inr False, s1, ev1) \<Rightarrow> (Inr False, s1, EvIsComplete (Name NodeToExecute) # ev1)
         | (Inl e, s1, ev1) \<Rightarrow> (Inl e, s1, EvIsComplete (Name NodeToExecute) # ev1))
      else
        (case ExecuteNodes c G rest s of
           (r, s2, ev2) \<Rightarrow> (r, s2, EvIsComplete (Name NodeToExecute) # ev2)))"

definition BuildAllNodes ::
  "'s Collaborators \<Rightarrow> Graph \<Rightarrow> 's \<Rightarrow> (error + bool) \<times> 's \<times> Event list" where
  "BuildAllNodes c G s =
     (let NodesToExecute = AllNodes G in
      case IntegrityPass c NodesToExecute [] s of
        (CleanedNodes, s1, ev1) \<Rightarrow>
          (case ExecuteNodes c G NodesToExecute s1 of
             (r, s2, ev2) \<Rightarrow> (r, s2, ev1 @ ev2)))"

section \<open>FindCompletedNodes, IsPublicAssembly, FindAvailableTasks\<close>

definition FindCompletedNodes :: "'s Collaborators \<Rightarrow> Graph \<Rightarrow> 's \<Rightarrow> Node list \<times> Event list" where
  "FindCompletedNodes c G s =
     (remdups (filter (\<lambda>n. IsComplete c s (Name n)) (AllNodes G)),
      map (\<lambda>n. EvIsComplete (Name n)) (AllNodes G))"

text \<open>
  \<^verbatim>\<open>StringComparison.InvariantCultureIgnoreCase\<close> on the two directory names compared,
  which are ASCII: upper-case letters are folded to lower case.
\<close>

definition ToLower :: "char \<Rightarrow> char" where
  "ToLower ch =
     (case map_of (zip ''ABCDEFGHIJKLMNOPQRSTUVWXYZ'' ''abcdefghijklmnopqrstuvwxyz'') ch of
        Some l \<Rightarrow> l
      | None \<Rightarrow> ch)"

definition EqualsIgnoreCase :: "string \<Rightarrow> string \<Rightarrow> bool" where
  "EqualsIgnoreCase x y = (map ToLower x = map ToLower y)"

text \<open>
  A path is the list of its fragments: \<^verbatim>\<open>IsUnderDirectory\<close> is the prefix test,
  \<^verbatim>\<open>MakeRelativeTo\<close> followed by the split at the separators is what is left after the
  directory's fragments.
\<close>

definition IsPublicAssembly :: "'s Collaborators \<Rightarrow> string list \<Rightarrow> bool" where
  "IsPublicAssembly c File =
     (if take (length (EngineDirectory c)) File = EngineDirectory c then
        (let PathFragments = drop (length (EngineDirectory c)) File in
         if list_all (\<lambda>x. \<not> EqualsIgnoreCase x ''NotForLicensees'' \<and> \<not> EqualsIgnoreCase x ''NoRedist'')
              PathFragments
         then True else False)
      else False)"

text \<open>
  The three nested loops of \<^verbatim>\<open>FindAvailableTasks\<close>, innermost first. Each returns
  false as soon as an attribute sits on a class that does not derive from
  \<^verbatim>\<open>CustomTask\<close>, or names a task element that \<^verbatim>\<open>NameToTask\<close> already has. The
  two errors they log come first; \<open>Quoted\<close> puts a name between single quotes.
\<close>

definition Quoted :: "string \<Rightarrow> string" where
  "Quoted nm = [CHR 0x27] @ nm @ [CHR 0x27]"

definition NotDerivedFromTask :: "string \<Rightarrow> string" where
  "NotDerivedFromTask nm =
     ''Class '' @ Quoted nm @ '' has TaskElementAttribute, but is not derived from '' @ Quoted ''Task''"

definition MultipleHandlers :: "string \<Rightarrow> string" where
  "MultipleHandlers nm = ''Found multiple handlers for task elements called '' @ Quoted nm"

fun AddTaskElements ::
  "ReflectedType \<Rightarrow> TaskElementAttribute list \<Rightarrow> (string \<times> ScriptTask) list
     \<Rightarrow> bool \<times> (string \<times> ScriptTask) list \<times> Event list" where
  "AddTaskElements T [] NameToTask = (True, NameToTask, [])"
| "AddTaskElements T (ElementAttribute # rest) NameToTask =
     (if \<not> IsSubclassOfCustomTask T then
        (False, NameToTask, [EvLogError (NotDerivedFromTask (TypeName T))])
      else if map_of NameToTask (AttrName ElementAttribute) \<noteq> None then
        (False, NameToTask, [EvLogError (MultipleHandlers (AttrName ElementAttribute))])
      else
        AddTaskElements T rest
          (NameToTask @ [(AttrName ElementAttribute,
             \<lparr>TaskName = AttrName ElementAttribute, TaskType = TypeName T,
              TaskParametersType = ParametersType ElementAttribute\<rparr>)]))"

fun AddTypes ::
  "ReflectedType list \<Rightarrow> (string \<times> ScriptTask) list
     \<Rightarrow> bool \<times> (string \<times> ScriptTask) list \<times> Event list" where
  "AddTypes [] NameToTask = (True, NameToTask, [])"
| "AddTypes (T # rest) NameToTask =
     (case AddTaskElements T (TaskElementAttributes T) NameToTask of
        (False, d, ev) \<Rightarrow> (False, d, ev)
      | (True, d, ev) \<Rightarrow> AddTypes rest d)"

fun AddAssemblies ::
  "Assembly list \<Rightarrow> (string \<times> ScriptTask) list
     \<Rightarrow> bool \<times> (string \<times> ScriptTask) list \<times> Event list" where
  "AddAssemblies [] NameToTask = (True, NameToTask, [])"
| "AddAssemblies (LoadedAssembly # rest) NameToTask =
     (case AddTypes (Types LoadedAssembly) NameToTask of
        (False, d, ev) \<Rightarrow> (False, d, ev)
      | (True, d, ev) \<Rightarrow> AddAssemblies rest d)"

definition FindAvailableTasks ::
  "'s Collaborators \<Rightarrow> (string \<times> ScriptTask) list \<Rightarrow> bool
     \<Rightarrow> bool \<times> (string \<times> ScriptTask) list \<times> Event list" where
  "FindAvailableTasks c NameToTask bPublicTasksOnly =
     AddAssemblies
       (if bPublicTasksOnly
        then filter (\<lambda>x. IsPublicAssembly c (Location x)) (LoadedAssemblies c)
        else LoadedAssemblies c)
       NameToTask"

section \<open>Execute\<close>

text \<open>
  The command line as \<^verbatim>\<open>Execute\<close> parses it: a value parameter that is absent is
  \<open>None\<close>; \<^verbatim>\<open>-Trigger=\<close> defaults to the empty string; \<^verbatim>\<open>-CleanNode=\<close> may be given
  several times. The print options are the two flags \<^verbatim>\<open>ShowDeps\<close> and
  \<^verbatim>\<open>ShowNotifications\<close>. The shared storage directory and the write flag configure the
  \<^verbatim>\<open>TempStorage\<close> object; the storage state given to \<^verbatim>\<open>Execute\<close> stands for the object
  so constructed. The property dictionary built from the environment and from
  \<^verbatim>\<open>-Set:\<close> is only handed to the script reader, which is a collaborator.
\<close>

record CommandLine =
  ScriptFileName :: "string option"
  TargetNames :: "string option"
  SchemaFileName :: "string option"
  ExportFileName :: "string option"
  SharedStorageDir :: "string option"
  SingleNodeName :: "string option"
  TriggerParam :: string
  bSkipTriggers :: bool
  bClean :: bool
  bListOnly :: bool
  bWriteToSharedStorage :: bool
  bPublicTasksOnly :: bool
  ShowDependencies :: bool
  ShowNotifications :: bool
  CleanNodeParams :: "string list"

datatype ExitCode = Success | Error_Unknown

text \<open>
  \<^verbatim>\<open>String.Split\<close> at one separator, and with \<^verbatim>\<open>RemoveEmptyEntries\<close>; \<^verbatim>\<open>Trim\<close>.
  A character is one of the 256 code units below \<open>0x100\<close>; among them
  \<^verbatim>\<open>Char.IsWhiteSpace\<close> holds of the space, of \<open>0x09\<close> to \<open>0x0D\<close>, of \<open>0x85\<close>
  (next line) and of \<open>0xA0\<close> (no-break space), and \<^verbatim>\<open>Trim\<close> strips these.
\<close>

fun Split :: "char \<Rightarrow> string \<Rightarrow> string list" where
  "Split sep [] = [[]]"
| "Split sep (ch # rest) =
     (if ch = sep then [] # Split sep rest
      else (case Split sep rest of
              [] \<Rightarrow> [[ch]]
            | w # ws \<Rightarrow> (ch # w) # ws))"

definition SplitRemoveEmptyEntries :: "char \<Rightarrow> string \<Rightarrow> string list" where
  "SplitRemoveEmptyEntries sep str = filter (\<lambda>x. x \<noteq> []) (Split sep str)"

definition IsWhiteSpace :: "char \<Rightarrow> bool" where
  "IsWhiteSpace ch =
     (ch \<in> set [CHR '' '', CHR 0x09, CHR 0x0A, CHR 0x0B, CHR 0x0C, CHR 0x0D, CHR 0x85, CHR 0xA0])"

definition Trim :: "string \<Rightarrow> string" where
  "Trim str = rev (dropWhile IsWhiteSpace (rev (dropWhile IsWhiteSpace str)))"

text \<open>
  The loop that converts the target references into nodes: \<open>Inl\<close> of the first name
  that does not resolve, or \<open>Inr\<close> of the union of the nodes found.
\<close>

fun ResolveTargets ::
  "'s Collaborators \<Rightarrow> Graph \<Rightarrow> string list \<Rightarrow> Node list \<Rightarrow> string + Node list" where
  "ResolveTargets c G [] TargetNodes = Inr TargetNodes"
| "ResolveTargets c G (TargetName # rest) TargetNodes =
     (case TryResolveReference c G TargetName of
        None \<Rightarrow> Inl TargetName
      | Some ns \<Rightarrow> ResolveTargets c G rest (List.union TargetNodes ns))"

text \<open>
  \<^verbatim>\<open>while(Trigger != null) { Triggers.Add(Trigger); Trigger = Trigger.Parent; }\<close>
\<close>

fun AddWithParents :: "ManualTrigger \<Rightarrow> ManualTrigger list \<Rightarrow> ManualTrigger list" where
  "AddWithParents (ManualTrigger nm None) Triggers =
     List.insert (ManualTrigger nm None) Triggers"
| "AddWithParents (ManualTrigger nm (Some p)) Triggers =
     AddWithParents p (List.insert (ManualTrigger nm (Some p)) Triggers)"

text \<open>
  The loop over the requested trigger names: \<open>Inl\<close> of the first name that is not a
  key of \<^verbatim>\<open>NameToTrigger\<close>, or \<open>Inr\<close> of the triggers activated.
\<close>

fun ActivateTriggers ::
  "Graph \<Rightarrow> string list \<Rightarrow> ManualTrigger list \<Rightarrow> string + ManualTrigger list" where
  "ActivateTriggers G [] Triggers = Inr Triggers"
| "ActivateTriggers G (TriggerName # rest) Triggers =
     (case map_of (NameToTrigger G) TriggerName of
        None \<Rightarrow> Inl TriggerName
      | Some Trigger \<Rightarrow> ActivateTriggers G rest (AddWithParents Trigger Triggers))"

text \<open>The set \<^verbatim>\<open>Triggers\<close> that \<^verbatim>\<open>Execute\<close> computes from the command line.\<close>

definition ActiveTriggers :: "Graph \<Rightarrow> CommandLine \<Rightarrow> string + ManualTrigger list" where
  "ActiveTriggers G a =
     (case ActivateTriggers G (SplitRemoveEmptyEntries CHR ''+'' (TriggerParam a)) [] of
        Inl TriggerName \<Rightarrow> Inl TriggerName
      | Inr Triggers \<Rightarrow>
          Inr (if bSkipTriggers a then List.union Triggers (map snd (NameToTrigger G))
               else Triggers))"

text \<open>
  The last statement of \<^verbatim>\<open>Execute\<close>, ``Execute the command'': list, export, build one
  node, or build all nodes, in this order of precedence.
\<close>

definition RunCommand ::
  "'s Collaborators \<Rightarrow> CommandLine \<Rightarrow> Graph \<Rightarrow> ManualTrigger list \<Rightarrow> Node option \<Rightarrow> 's
     \<Rightarrow> (error + ExitCode) \<times> 's \<times> Event list" where
  "RunCommand c a G Triggers SingleNode s =
     (if bListOnly a then
        (case FindCompletedNodes c G s of
           (CompletedNodes, ev) \<Rightarrow>
             (Inr Success, s,
              ev @ [EvPrint (map Name CompletedNodes) (ShowDependencies a) (ShowNotifications a)]))
      else
        (case ExportFileName a of
           Some f \<Rightarrow>
             (case FindCompletedNodes c G s of
                (CompletedNodes, ev) \<Rightarrow>
                  (Inr Success, s,
                   ev @ [EvPrint (map Name CompletedNodes) (ShowDependencies a) (ShowNotifications a),
                         EvExport f Triggers (map Name CompletedNodes)]))
         | None \<Rightarrow>
             (case SingleNode of
                Some n \<Rightarrow>
                  (case BuildSingleNode c G n s of
                     (Inl e, s', ev) \<Rightarrow> (Inl e, s', ev)
                   | (Inr False, s', ev) \<Rightarrow> (Inr Error_Unknown, s', ev)
                   | (Inr True, s', ev) \<Rightarrow> (Inr Success, s', ev))
              | None \<Rightarrow>
                  (case BuildAllNodes c G s of
                     (Inl e, s', ev) \<Rightarrow> (Inl e, s', ev)
                   | (Inr False, s', ev) \<Rightarrow> (Inr Error_Unknown, s', ev)
                   | (Inr True, s', ev) \<Rightarrow> (Inr Success, s', ev)))))"

text \<open>
  \<^verbatim>\<open>Execute\<close> from the creation of the storage handler on, for the graph the script
  reader returned: the \<^verbatim>\<open>-Clean\<close> and \<^verbatim>\<open>-CleanNode\<close> requests, the targets, the cull,
  the triggers, the single node, and the command.
\<close>

definition CleanNodes :: "CommandLine \<Rightarrow> string list" where
  "CleanNodes a = concat (map (Split CHR ''+'') (CleanNodeParams a))"

text \<open>
  \<^verbatim>\<open>if(bClean) Storage.CleanLocal();\<close> and the loop
  \<^verbatim>\<open>foreach(string CleanNode in CleanNodes) Storage.CleanLocalNode(CleanNode);\<close>
\<close>

definition CleanRequests :: "'s Collaborators \<Rightarrow> CommandLine \<Rightarrow> 's \<Rightarrow> 's \<times> Event list" where
  "CleanRequests c a s =
     (fold (\<lambda>CleanNode st. CleanLocalNode c st CleanNode) (CleanNodes a)
        (if bClean a then CleanLocal c s else s),
      (if bClean a then [EvCleanLocal] else []) @ map EvCleanLocalNode (CleanNodes a))"

text \<open>The errors that \<^verbatim>\<open>Execute\<close> logs with a name.\<close>

definition TargetNotInGraph :: "string \<Rightarrow> string" where
  "TargetNotInGraph nm = ''Target '' @ Quoted nm @ '' is not in graph''"

definition TriggerNotFound :: "string \<Rightarrow> string" where
  "TriggerNotFound nm = ''Couldn't find trigger '' @ Quoted nm"

definition NodeNotInTrimmedGraph :: "string \<Rightarrow> string" where
  "NodeNotInTrimmedGraph nm = ''Node '' @ Quoted nm @ '' is not in the trimmed graph''"

definition ExecuteGraph ::
  "'s Collaborators \<Rightarrow> CommandLine \<Rightarrow> string \<Rightarrow> Graph \<Rightarrow> 's
     \<Rightarrow> (error + ExitCode) \<times> 's \<times> Event list" where
  "ExecuteGraph c a Targets G s =
     (case CleanRequests c a s of
        (s1, ev1) \<Rightarrow>
          (case ResolveTargets c G (map Trim (SplitRemoveEmptyEntries CHR ''+'' Targets)) [] of
             Inl TargetName \<Rightarrow>
               (Inr Error_Unknown, s1, ev1 @ [EvLogError (TargetNotInGraph TargetName)])
           | Inr TargetNodes \<Rightarrow>
               (let G' = Select c G TargetNodes in
                case ActiveTriggers G' a of
                  Inl TriggerName \<Rightarrow>
                    (Inr Error_Unknown, s1, ev1 @ [EvLogError (TriggerNotFound TriggerName)])
                | Inr Triggers \<Rightarrow>
                    (case SingleNodeName a of
                       None \<Rightarrow>
                         (case RunCommand c a G' Triggers None s1 of
                            (r, s2, ev2) \<Rightarrow> (r, s2, ev1 @ ev2))
                     | Some nm \<Rightarrow>
                         (case map_of (NameToNode G') nm of
                            None \<Rightarrow>
                              (Inr Error_Unknown, s1, ev1 @ [EvLogError (NodeNotInTrimmedGraph nm)])
                          | Some SingleNode \<Rightarrow>
                              (case RunCommand c a G' Triggers (Some SingleNode) s1 of
                                 (r, s2, ev2) \<Rightarrow> (r, s2, ev1 @ ev2)))))))"

text \<open>
  \<^verbatim>\<open>Execute\<close>, the entry point: the two required parameters, the task discovery, the
  schema, the script, then the rest.
\<close>

definition SchemaEvents :: "CommandLine \<Rightarrow> Event list" where
  "SchemaEvents a = (case SchemaFileName a of None \<Rightarrow> [] | Some f \<Rightarrow> [EvSchemaExport f])"

definition Execute ::
  "'s Collaborators \<Rightarrow> CommandLine \<Rightarrow> 's \<Rightarrow> (error + ExitCode) \<times> 's \<times> Event list" where
  "Execute c a s =
     (case ScriptFileName a of
        None \<Rightarrow> (Inr Error_Unknown, s, [EvLogError ''Missing -Script= parameter for BuildGraph''])
      | Some Script \<Rightarrow>
          (case TargetNames a of
             None \<Rightarrow> (Inr Error_Unknown, s, [EvLogError ''Missing -Target= parameter for BuildGraph''])
           | Some Targets \<Rightarrow>
               (case FindAvailableTasks c [] (bPublicTasksOnly a) of
                  (False, NameToTask, ev0) \<Rightarrow> (Inr Error_Unknown, s, ev0)
                | (True, NameToTask, ev0) \<Rightarrow>
                    (case TryRead c Script of
                       None \<Rightarrow> (Inr Error_Unknown, s, ev0 @ SchemaEvents a)
                     | Some G \<Rightarrow>
                         (case ExecuteGraph c a Targets G s of
                            (r, s', ev) \<Rightarrow> (r, s', ev0 @ SchemaEvents a @ ev))))))"

section \<open>The collaborators, as the specification describes them\<close>

text \<open>
  The theorems below hold for any collaborators. To run the command on concrete inputs,
  the collaborators whose code is not in the repository's files are given the behaviour
  the specification states for them.
\<close>

text \<open>
  Modelled from the spec: the state of \<^verbatim>\<open>TempStorage\<close>, a two-tier cache keyed by node
  name and output tag name. The local tier holds completion markers and manifests; the
  shared tier is optional; \<open>UnchangedOnDisk\<close> lists the files (relative to the root)
  that still exist, unchanged, on disk.
\<close>

record StorageState =
  UnchangedOnDisk :: "string list"
  CompleteMarkers :: "string list"
  LocalManifests :: "((string \<times> string) \<times> TempStorageManifest) list"
  SharedManifests :: "((string \<times> string) \<times> TempStorageManifest) list option"
  bWriteToShared :: bool

text \<open>
  Modelled from the spec: \<^verbatim>\<open>TempStorage.IsComplete\<close>, true if a completion marker for
  the node exists in local storage.
\<close>

definition Spec_IsComplete :: "StorageState \<Rightarrow> string \<Rightarrow> bool" where
  "Spec_IsComplete s NodeName = (NodeName \<in> set (CompleteMarkers s))"

text \<open>Modelled from the spec: \<^verbatim>\<open>TempStorage.MarkAsComplete\<close> writes the completion marker.\<close>

definition Spec_MarkAsComplete :: "StorageState \<Rightarrow> string \<Rightarrow> StorageState" where
  "Spec_MarkAsComplete s NodeName = s\<lparr>CompleteMarkers := List.insert NodeName (CompleteMarkers s)\<rparr>"

text \<open>
  Modelled from the spec: \<^verbatim>\<open>TempStorage.CheckLocalIntegrity\<close> verifies that every file
  recorded in each output's local manifest still exists, unchanged, on disk.
\<close>

definition Spec_CheckLocalIntegrity :: "StorageState \<Rightarrow> string \<Rightarrow> string list \<Rightarrow> bool" where
  "Spec_CheckLocalIntegrity s NodeName OutputNames' =
     list_all (\<lambda>OutputName.
        case map_of (LocalManifests s) (NodeName, OutputName) of
          None \<Rightarrow> True
        | Some Manifest \<Rightarrow> list_all (\<lambda>f. f \<in> set (UnchangedOnDisk s)) (Files Manifest))
       OutputNames'"

text \<open>
  Modelled from the spec: \<^verbatim>\<open>TempStorage.CleanLocalNode\<close> removes the local manifests and
  the completion marker of a node; \<^verbatim>\<open>TempStorage.CleanLocal\<close> does so for all nodes.
\<close>

definition Spec_CleanLocalNode :: "StorageState \<Rightarrow> string \<Rightarrow> StorageState" where
  "Spec_CleanLocalNode s NodeName =
     s\<lparr>CompleteMarkers := removeAll NodeName (CompleteMarkers s),
       LocalManifests := filter (\<lambda>kv. fst (fst kv) \<noteq> NodeName) (LocalManifests s)\<rparr>"

definition Spec_CleanLocal :: "StorageState \<Rightarrow> StorageState" where
  "Spec_CleanLocal s = s\<lparr>CompleteMarkers := [], LocalManifests := []\<rparr>"

text \<open>
  Modelled from the spec: \<^verbatim>\<open>TempStorage.Retreive\<close> returns the manifest of a previously
  produced output, fetching it from shared storage into the local cache first if it is
  not already local; it fails with \<^verbatim>\<open>MissingOutput\<close> if it is absent from both tiers.
\<close>

definition Spec_Retreive ::
  "StorageState \<Rightarrow> string \<Rightarrow> string \<Rightarrow> error + (TempStorageManifest \<times> StorageState)" where
  "Spec_Retreive s NodeName OutputName =
     (case map_of (LocalManifests s) (NodeName, OutputName) of
        Some Manifest \<Rightarrow> Inr (Manifest, s)
      | None \<Rightarrow>
          (case SharedManifests s of
             None \<Rightarrow> Inl (MissingOutput NodeName OutputName)
           | Some sh \<Rightarrow>
               (case map_of sh (NodeName, OutputName) of
                  None \<Rightarrow> Inl (MissingOutput NodeName OutputName)
                | Some Manifest \<Rightarrow>
                    Inr (Manifest,
                         s\<lparr>LocalManifests := ((NodeName, OutputName), Manifest) # LocalManifests s\<rparr>))))"

text \<open>
  Modelled from the spec: file paths of a manifest are relative to a declared root;
  \<^verbatim>\<open>ToFileReference\<close> resolves one against the root and \<^verbatim>\<open>MakeRelativeTo\<close> takes the
  root off again.
\<close>

definition Spec_ToFileReference :: "string \<Rightarrow> string \<Rightarrow> FileReference" where
  "Spec_ToFileReference RootDir f = RootDir @ ''/'' @ f"

definition Spec_MakeRelativeTo :: "string \<Rightarrow> FileReference \<Rightarrow> string" where
  "Spec_MakeRelativeTo RootDir f =
     (if take (length RootDir + 1) f = RootDir @ ''/'' then drop (length RootDir + 1) f else f)"

text \<open>
  Modelled from the spec: \<^verbatim>\<open>TempStorage.Archive\<close> records the manifest locally and, if
  the output must be pushed to shared storage and shared-write is enabled, copies it
  to shared storage.
\<close>

definition Spec_Archive ::
  "string \<Rightarrow> StorageState \<Rightarrow> string \<Rightarrow> string \<Rightarrow> FileReference list \<Rightarrow> bool \<Rightarrow> StorageState" where
  "Spec_Archive RootDir s NodeName OutputName fs bPushToShared =
     (let Manifest = \<lparr>Files = map (Spec_MakeRelativeTo RootDir) fs\<rparr> in
      s\<lparr>LocalManifests := ((NodeName, OutputName), Manifest) # LocalManifests s,
        SharedManifests :=
          (case SharedManifests s of
             None \<Rightarrow> None
           | Some sh \<Rightarrow>
               Some (if bPushToShared \<and> bWriteToShared s
                     then ((NodeName, OutputName), Manifest) # sh else sh))\<rparr>)"

text \<open>
  Modelled from the spec: \<^verbatim>\<open>Graph.TryResolveReference\<close> resolves a target string to
  nodes, either a node name or an output tag name standing in for its producing node;
  it fails if neither matches.
\<close>

definition Spec_TryResolveReference :: "Graph \<Rightarrow> string \<Rightarrow> Node list option" where
  "Spec_TryResolveReference G nm =
     (case map_of (NameToNode G) nm of
        Some n \<Rightarrow> Some [n]
      | None \<Rightarrow>
          (case map_of (OutputNameToNode G) nm of
             Some n \<Rightarrow> Some [n]
           | None \<Rightarrow> None))"

text \<open>
  Modelled from the spec: \<^verbatim>\<open>Graph.Select\<close> retains the targets and their transitive
  input-dependency closure; all other nodes, and any group left empty, are dropped, and
  the order within the surviving groups is kept.
\<close>

fun DependencyClosure :: "Node \<Rightarrow> Node list" where
  "DependencyClosure (Node nm ins outs deps trig) =
     Node nm ins outs deps trig # concat (map DependencyClosure deps)"

definition Spec_Select :: "Graph \<Rightarrow> Node list \<Rightarrow> Graph" where
  "Spec_Select G targets =
     (let keep = concat (map DependencyClosure targets) in
      \<lparr>Groups = filter (\<lambda>g. Nodes g \<noteq> [])
                 (map (\<lambda>g. g\<lparr>Nodes := filter (\<lambda>n. n \<in> set keep) (Nodes g)\<rparr>) (Groups G)),
       NameToNode = filter (\<lambda>kv. snd kv \<in> set keep) (NameToNode G),
       OutputNameToNode = filter (\<lambda>kv. snd kv \<in> set keep) (OutputNameToNode G),
       NameToTrigger = NameToTrigger G\<rparr>)"

text \<open>
  The collaborators so described, for a root directory, a \<^verbatim>\<open>Node.Build\<close>, a script
  reader and the loaded assemblies.
\<close>

definition SpecCollaborators ::
  "string \<Rightarrow> (Node \<Rightarrow> TagNameToFileSet \<Rightarrow> bool \<times> TagNameToFileSet) \<Rightarrow> (string \<Rightarrow> Graph option)
     \<Rightarrow> Assembly list \<Rightarrow> StorageState Collaborators" where
  "SpecCollaborators RootDir build reader assemblies =
     \<lparr>IsComplete = Spec_IsComplete,
      MarkAsComplete = Spec_MarkAsComplete,
      CheckLocalIntegrity = Spec_CheckLocalIntegrity,
      CleanLocalNode = Spec_CleanLocalNode,
      CleanLocal = Spec_CleanLocal,
      Retreive = Spec_Retreive,
      Archive = Spec_Archive RootDir,
      NodeBuild = build,
      ToFileReference = Spec_ToFileReference RootDir,
      MakeRelativeTo = Spec_MakeRelativeTo RootDir,
      TryRead = reader,
      TryResolveReference = Spec_TryResolveReference,
      Select = Spec_Select,
      LoadedAssemblies = assemblies,
      EngineDirectory = [''UE4'', ''Engine'']\<rparr>"

section \<open>A sample graph\<close>

text \<open>
  Two triggers, \<open>QA\<close> and its child \<open>Release\<close>; two agent groups; \<open>Compile\<close>
  produces \<open>Binaries\<close> and \<open>Symbols\<close>, \<open>Package\<close> turns \<open>Binaries\<close> into
  \<open>Archive\<close>, and \<open>Deploy\<close>, behind the trigger \<open>Release\<close>, consumes \<open>Archive\<close>.
\<close>

definition QA :: ManualTrigger where
  "QA = ManualTrigger ''QA'' None"

definition Release :: ManualTrigger where
  "Release = ManualTrigger ''Release'' (Some QA)"

definition Compile :: Node where
  "Compile = Node ''Compile'' [] [''Binaries'', ''Symbols''] [] None"

definition Package :: Node where
  "Package = Node ''Package'' [''Binaries''] [''Archive''] [Compile] None"

definition Deploy :: Node where
  "Deploy = Node ''Deploy'' [''Archive''] [''Deployed''] [Package] (Some Release)"

definition SampleGraph :: Graph where
  "SampleGraph =
     \<lparr>Groups = [\<lparr>GroupName = ''Builders'', Nodes = [Compile]\<rparr>,
                \<lparr>GroupName = ''Packagers'', Nodes = [Package, Deploy]\<rparr>],
      NameToNode = [(''Compile'', Compile), (''Package'', Package), (''Deploy'', Deploy)],
      OutputNameToNode = [(''Binaries'', Compile), (''Symbols'', Compile),
                          (''Archive'', Package), (''Deployed'', Deploy)],
      NameToTrigger = [(''QA'', QA), (''Release'', Release)]\<rparr>"

text \<open>A build step that succeeds and puts one file, named after the tag, in each output.\<close>

definition SampleBuild :: "Node \<Rightarrow> TagNameToFileSet \<Rightarrow> bool \<times> TagNameToFileSet" where
  "SampleBuild n m =
     (True, fold (\<lambda>OutputName m'. m'(OutputName \<mapsto> Some [''/UE4/'' @ OutputName])) (OutputNames n) m)"

text \<open>A build step that fails.\<close>

definition FailingBuild :: "Node \<Rightarrow> TagNameToFileSet \<Rightarrow> bool \<times> TagNameToFileSet" where
  "FailingBuild n m = (False, m)"

text \<open>One loaded assembly with one task class.\<close>

definition SampleAssemblies :: "Assembly list" where
  "SampleAssemblies =
     [\<lparr>Location = [''UE4'', ''Engine'', ''Binaries'', ''AutomationTool.dll''],
       Types = [\<lparr>TypeName = ''CompileTask'', IsSubclassOfCustomTask = True,
                 TaskElementAttributes = [\<lparr>AttrName = ''Compile'', ParametersType = ''CompileTaskParameters''\<rparr>]\<rparr>]\<rparr>]"

definition SampleReader :: "string \<Rightarrow> Graph option" where
  "SampleReader f = (if f = ''Build.xml'' then Some SampleGraph else None)"

definition Sample :: "StorageState Collaborators" where
  "Sample = SpecCollaborators ''/UE4'' SampleBuild SampleReader SampleAssemblies"

text \<open>A storage with nothing in it, and a shared tier that may be written.\<close>

definition EmptyStorage :: StorageState where
  "EmptyStorage =
     \<lparr>UnchangedOnDisk = [], CompleteMarkers = [], LocalManifests = [],
      SharedManifests = Some [], bWriteToShared = True\<rparr>"

text \<open>The storage after \<open>Compile\<close> was built, its two files being on disk.\<close>

definition AfterCompile :: StorageState where
  "AfterCompile =
     \<lparr>UnchangedOnDisk = [''Binaries'', ''Symbols''], CompleteMarkers = [''Compile''],
      LocalManifests = [((''Compile'', ''Symbols''), \<lparr>Files = [''Symbols'']\<rparr>),
                        ((''Compile'', ''Binaries''), \<lparr>Files = [''Binaries'']\<rparr>)],
      SharedManifests = Some [((''Compile'', ''Binaries''), \<lparr>Files = [''Binaries'']\<rparr>)],
      bWriteToShared = True\<rparr>"

text \<open>A build step that fails for \<open>Package\<close> and succeeds for every other node.\<close>

definition PackageFails :: "Node \<Rightarrow> TagNameToFileSet \<Rightarrow> bool \<times> TagNameToFileSet" where
  "PackageFails n m = (if Name n = ''Package'' then (False, m) else SampleBuild n m)"

text \<open>The command line \<^verbatim>\<open>-Script=Build.xml -Target=t\<close>.\<close>

definition BuildTarget :: "string \<Rightarrow> CommandLine" where
  "BuildTarget t =
     \<lparr>ScriptFileName = Some ''Build.xml'', TargetNames = Some t, SchemaFileName = None,
      ExportFileName = None, SharedStorageDir = None, SingleNodeName = None, TriggerParam = [],
      bSkipTriggers = False, bClean = False, bListOnly = False, bWriteToSharedStorage = False,
      bPublicTasksOnly = False, ShowDependencies = False, ShowNotifications = False,
      CleanNodeParams = []\<rparr>"

text \<open>The storage after \<open>Compile\<close> was built from the empty storage.\<close>

definition CompiledOnly :: StorageState where
  "CompiledOnly =
     \<lparr>UnchangedOnDisk = [], CompleteMarkers = [''Compile''],
      LocalManifests = [((''Compile'', ''Symbols''), \<lparr>Files = [''Symbols'']\<rparr>),
                        ((''Compile'', ''Binaries''), \<lparr>Files = [''Binaries'']\<rparr>)],
      SharedManifests = Some [((''Compile'', ''Binaries''), \<lparr>Files = [''Binaries'']\<rparr>)],
      bWriteToShared = True\<rparr>"

section \<open>Notions used in the statements\<close>

text \<open>
  Modelled from the spec: the contract of \<^verbatim>\<open>TempStorage\<close> on completion markers. A
  marker is written by \<^verbatim>\<open>MarkAsComplete\<close> and removed by \<^verbatim>\<open>CleanLocalNode\<close> for that
  node; so the marker of a node survives \<^verbatim>\<open>CleanLocalNode\<close> of another node,
  \<^verbatim>\<open>Retreive\<close>, \<^verbatim>\<open>Archive\<close> and \<^verbatim>\<open>MarkAsComplete\<close>.
\<close>

definition MarkersPersist :: "'s Collaborators \<Rightarrow> bool" where
  "MarkersPersist c \<longleftrightarrow>
     (\<forall>s m x. x \<noteq> m \<longrightarrow> IsComplete c s x \<longrightarrow> IsComplete c (CleanLocalNode c s m) x) \<and>
     (\<forall>s a b Manifest s' x.
        Retreive c s a b = Inr (Manifest, s') \<longrightarrow> IsComplete c s x \<longrightarrow> IsComplete c s' x) \<and>
     (\<forall>s a b fs f x. IsComplete c s x \<longrightarrow> IsComplete c (Archive c s a b fs f) x) \<and>
     (\<forall>s m x. IsComplete c s x \<longrightarrow> IsComplete c (MarkAsComplete c s m) x)"





text \<open>
  The task element names that \<^verbatim>\<open>FindAvailableTasks\<close> meets, in the order of its three
  loops.
\<close>

definition TaskElementNames :: "Assembly list \<Rightarrow> string list" where
  "TaskElementNames assemblies =
     map AttrName (concat (map TaskElementAttributes (concat (map Types assemblies))))"


text \<open>
  The classes and task element attributes that \<^verbatim>\<open>FindAvailableTasks\<close> meets, each
  attribute with the class that carries it, in the order of its three loops.
\<close>

definition ScannedAttributes :: "Assembly list \<Rightarrow> (ReflectedType \<times> TaskElementAttribute) list" where
  "ScannedAttributes assemblies =
     concat (map (\<lambda>T. map (Pair T) (TaskElementAttributes T)) (concat (map Types assemblies)))"

definition AttributeNames :: "(ReflectedType \<times> TaskElementAttribute) list \<Rightarrow> string list" where
  "AttributeNames scanned = map (\<lambda>p. AttrName (snd p)) scanned"

text \<open>
  A scan without a configuration error: every class that carries an attribute derives
  from \<^verbatim>\<open>CustomTask\<close>, and the task element names are new (none among the \<open>known\<close>
  names) and all different.
\<close>

definition DiscoveryAccepts :: "string list \<Rightarrow> (ReflectedType \<times> TaskElementAttribute) list \<Rightarrow> bool" where
  "DiscoveryAccepts known scanned \<longleftrightarrow>
     list_all (\<lambda>p. IsSubclassOfCustomTask (fst p)) scanned
     \<and> distinct (AttributeNames scanned)
     \<and> list_all (\<lambda>nm. nm \<notin> set known) (AttributeNames scanned)"

text \<open>
  The error of a scan that has one: the scan is without error up to some attribute,
  and that attribute either sits on a class that does not derive from \<^verbatim>\<open>CustomTask\<close>,
  which the message names, or names a task element that was met before (among the
  \<open>known\<close> names or earlier in the scan), which the message names.
\<close>

definition TaskDiscoveryError ::
  "string list \<Rightarrow> (ReflectedType \<times> TaskElementAttribute) list \<Rightarrow> string \<Rightarrow> bool" where
  "TaskDiscoveryError known scanned msg \<longleftrightarrow>
     (\<exists>pre T x post. scanned = pre @ (T, x) # post
        \<and> DiscoveryAccepts known pre
        \<and> (if IsSubclassOfCustomTask T
           then AttrName x \<in> set (known @ AttributeNames pre) \<and> msg = MultipleHandlers (AttrName x)
           else msg = NotDerivedFromTask (TypeName T)))"


text \<open>The assemblies that \<^verbatim>\<open>FindAvailableTasks\<close> scans for a command line.\<close>

definition ScannedAssemblies :: "'s Collaborators \<Rightarrow> CommandLine \<Rightarrow> Assembly list" where
  "ScannedAssemblies c a =
     (if bPublicTasksOnly a
      then filter (\<lambda>x. IsPublicAssembly c (Location x)) (LoadedAssemblies c)
      else LoadedAssemblies c)"

text \<open>The command line \<^verbatim>\<open>-Script=Build.xml -Target=t -SingleNode=nm\<close>.\<close>

definition SingleNodeOf :: "string \<Rightarrow> string \<Rightarrow> CommandLine" where
  "SingleNodeOf t nm = (BuildTarget t)\<lparr>SingleNodeName := Some nm\<rparr>"

text \<open>
  A graph of one node, \<open>Compile\<close> with the two outputs \<open>ObjFiles\<close> and \<open>Debug\<close>,
  and a build step that puts the file \<open>a.obj\<close> under both tags and reports success.
\<close>

definition ObjCompile :: Node where
  "ObjCompile = Node ''Compile'' [] [''ObjFiles'', ''Debug''] [] None"

definition ObjGraph :: Graph where
  "ObjGraph =
     \<lparr>Groups = [\<lparr>GroupName = ''Builders'', Nodes = [ObjCompile]\<rparr>],
      NameToNode = [(''Compile'', ObjCompile)],
      OutputNameToNode = [(''ObjFiles'', ObjCompile), (''Debug'', ObjCompile)],
      NameToTrigger = []\<rparr>"

definition WritesBoth :: "Node \<Rightarrow> TagNameToFileSet \<Rightarrow> bool \<times> TagNameToFileSet" where
  "WritesBoth n m = (True, m(''ObjFiles'' \<mapsto> Some [''/UE4/a.obj''], ''Debug'' \<mapsto> Some [''/UE4/a.obj'']))"

text \<open>A trigger followed by its parent, the parent of its parent, and so on.\<close>

fun SelfAndAncestors :: "ManualTrigger \<Rightarrow> ManualTrigger list" where
  "SelfAndAncestors (ManualTrigger nm None) = [ManualTrigger nm None]"
| "SelfAndAncestors (ManualTrigger nm (Some p)) = ManualTrigger nm (Some p) # SelfAndAncestors p"

text \<open>
  The effect on the storage of one logged call, made with the arguments logged, and of
  a log of calls made in order. A \<^verbatim>\<open>Retreive\<close> that fails leaves the storage as it was;
  the calls that only read, log or print leave it as it was.
\<close>

fun Effect :: "'s Collaborators \<Rightarrow> Event \<Rightarrow> 's \<Rightarrow> 's" where
  "Effect c EvCleanLocal s = CleanLocal c s"
| "Effect c (EvCleanLocalNode NodeName) s = CleanLocalNode c s NodeName"
| "Effect c (EvRetreive NodeName OutputName) s =
     (case Retreive c s NodeName OutputName of Inl e \<Rightarrow> s | Inr (Manifest, s') \<Rightarrow> s')"
| "Effect c (EvArchive NodeName OutputName fs bPush) s = Archive c s NodeName OutputName fs bPush"
| "Effect c (EvMarkAsComplete NodeName) s = MarkAsComplete c s NodeName"
| "Effect c (EvLogError msg) s = s"
| "Effect c (EvCheckLocalIntegrity NodeName) s = s"
| "Effect c (EvIsComplete NodeName) s = s"
| "Effect c (EvBuild NodeName) s = s"
| "Effect c (EvSchemaExport f) s = s"
| "Effect c (EvPrint completed deps notifications) s = s"
| "Effect c (EvExport f Triggers completed) s = s"

definition Replay :: "'s Collaborators \<Rightarrow> Event list \<Rightarrow> 's \<Rightarrow> 's" where
  "Replay c ev s = fold (Effect c) ev s"

text \<open>
  The condition under which an output is pushed to shared storage, in the words of the
  specification: some node in a different
  agent group (a group that does not contain the node), or in the same agent group but
  with a different \<^verbatim>\<open>ControllingTrigger\<close>, lists the tag among its input names.
\<close>

definition ConsumedOutsideScope :: "Graph \<Rightarrow> Node \<Rightarrow> string \<Rightarrow> bool" where
  "ConsumedOutsideScope G n t \<longleftrightarrow>
     (\<exists>Group \<in> set (Groups G). \<exists>OtherNode \<in> set (Nodes Group).
        (n \<notin> set (Nodes Group) \<or> ControllingTrigger n \<noteq> ControllingTrigger OtherNode)
        \<and> t \<in> set (InputNames OtherNode))"

text \<open>
  Modelled from the spec: completion markers are written by \<^verbatim>\<open>MarkAsComplete\<close> alone;
  \<^verbatim>\<open>Retreive\<close> and \<^verbatim>\<open>Archive\<close> write none.
\<close>

definition OnlyMarkAsCompleteMarks :: "'s Collaborators \<Rightarrow> bool" where
  "OnlyMarkAsCompleteMarks c \<longleftrightarrow>
     (\<forall>s a b Manifest s' x.
        Retreive c s a b = Inr (Manifest, s') \<longrightarrow> \<not> IsComplete c s x \<longrightarrow> \<not> IsComplete c s' x) \<and>
     (\<forall>s a b fs f x. \<not> IsComplete c s x \<longrightarrow> \<not> IsComplete c (Archive c s a b fs f) x)"

section \<open>Calls made by BuildSingleNode\<close>

text \<open>Assembling the tag dictionary only retrieves; publishing only archives.\<close>

lemma FetchInputs_events:
  "FetchInputs c G is m s = (r, s', ev) \<Longrightarrow> e \<in> set ev \<Longrightarrow> \<exists>a b. e = EvRetreive a b"
proof (induction "is" arbitrary: m s r s' ev)
  case Nil
  then show ?case by simp
next
  case (Cons i rest)
  then show ?case
    by (fastforce split: option.splits sum.splits prod.splits)
qed

lemma AssembleTagNames_events:
  "AssembleTagNames c G n s = (r, s', ev) \<Longrightarrow> e \<in> set ev \<Longrightarrow> \<exists>a b. e = EvRetreive a b"
  unfolding AssembleTagNames_def
  by (auto split: prod.splits sum.splits dest: FetchInputs_events)

lemma ArchiveOutputs_events:
  "ArchiveOutputs c n refd m ts s = (r, s', ev) \<Longrightarrow>
     \<exists>k \<le> length ts. ev = map (\<lambda>t. EvArchive (Name n) t (the (the (m t))) (t \<in> set refd)) (take k ts)
       \<and> (r = Inr () \<longrightarrow> k = length ts)"
proof (induction ts arbitrary: s r s' ev)
  case Nil
  then show ?case by simp
next
  case (Cons a ts)
  show ?case
  proof (cases "m a")
    case None
    with Cons.prems show ?thesis by (intro exI[of _ 0]) auto
  next
    case (Some v)
    show ?thesis
    proof (cases v)
      case None
      with Some Cons.prems show ?thesis by (intro exI[of _ 0]) auto
    next
      case (Some fs)
      obtain r1 s1 ev1 where rec: "ArchiveOutputs c n refd m ts (Archive c s (Name n) a fs (a \<in> set refd)) = (r1, s1, ev1)"
        by (metis prod_cases3)
      from Cons.IH[OF rec] obtain k where k: "k \<le> length ts"
        "ev1 = map (\<lambda>t. EvArchive (Name n) t (the (the (m t))) (t \<in> set refd)) (take k ts)"
        "r1 = Inr () \<longrightarrow> k = length ts" by blast
      from Cons.prems \<open>m a = Some v\<close> Some rec have "r = r1" "ev = EvArchive (Name n) a fs (a \<in> set refd) # ev1"
        by auto
      with k \<open>m a = Some v\<close> Some show ?thesis
        by (intro exI[of _ "Suc k"]) auto
    qed
  qed
qed

text \<open>
  The storage that a run returns is the storage it was given after the calls of its
  log, made in order with the arguments logged.
\<close>

lemma Replay_append: "Replay c (ev1 @ ev2) s = Replay c ev2 (Replay c ev1 s)"
  by (simp add: Replay_def)

lemma Replay_Cons: "Replay c (e # ev) s = Replay c ev (Effect c e s)"
  by (simp add: Replay_def)

lemma Replay_Nil: "Replay c [] s = s"
  by (simp add: Replay_def)

lemma FetchInputs_replay:
  "FetchInputs c G is m s = (r, s', ev) \<Longrightarrow> s' = Replay c ev s"
proof (induction "is" arbitrary: m s r s' ev)
  case Nil
  then show ?case by (simp add: Replay_Nil)
next
  case (Cons i rest)
  show ?case
  proof (cases "map_of (OutputNameToNode G) i")
    case None
    with Cons.prems show ?thesis by (simp add: Replay_Nil)
  next
    case (Some p)
    show ?thesis
    proof (cases "Retreive c s (Name p) i")
      case (Inl e)
      with Some Cons.prems show ?thesis by (auto simp: Replay_Cons Replay_Nil)
    next
      case (Inr v)
      obtain Manifest s2 where v: "v = (Manifest, s2)" by (cases v)
      from Some Inr v Cons.prems obtain ev2 where
        rec: "FetchInputs c G rest (m(i \<mapsto> Some (remdups (map (ToFileReference c) (Files Manifest))))) s2 = (r, s', ev2)"
        and ev: "ev = EvRetreive (Name p) i # ev2"
        by (auto split: prod.splits)
      from Cons.IH[OF rec] have "s' = Replay c ev2 s2" .
      with ev Inr v show ?thesis by (simp add: Replay_Cons)
    qed
  qed
qed

lemma AssembleTagNames_replay:
  "AssembleTagNames c G n s = (r, s', ev) \<Longrightarrow> s' = Replay c ev s"
  unfolding AssembleTagNames_def
  by (auto split: prod.splits sum.splits dest: FetchInputs_replay)

lemma ArchiveOutputs_replay:
  "ArchiveOutputs c n refd m ts s = (r, s', ev) \<Longrightarrow> s' = Replay c ev s"
proof (induction ts arbitrary: s r s' ev)
  case Nil
  then show ?case by (simp add: Replay_Nil)
next
  case (Cons t ts)
  show ?case
  proof (cases "m t")
    case None
    with Cons.prems show ?thesis by (simp add: Replay_Nil)
  next
    case (Some v)
    show ?thesis
    proof (cases v)
      case None
      with Some Cons.prems show ?thesis by (simp add: Replay_Nil)
    next
      case (Some fs)
      from \<open>m t = Some v\<close> Some Cons.prems obtain ev2 where
        rec: "ArchiveOutputs c n refd m ts (Archive c s (Name n) t fs (t \<in> set refd)) = (r, s', ev2)"
        and ev: "ev = EvArchive (Name n) t fs (t \<in> set refd) # ev2"
        by (auto split: prod.splits)
      from Cons.IH[OF rec] ev show ?thesis by (simp add: Replay_Cons)
    qed
  qed
qed

lemma BuildSingleNode_replay:
  assumes "BuildSingleNode c G n s = (r, s', ev)"
  shows "s' = Replay c ev s"
proof -
  obtain r1 s1 ev1 where a: "AssembleTagNames c G n s = (r1, s1, ev1)" by (metis prod_cases3)
  from AssembleTagNames_replay[OF a] have s1: "s1 = Replay c ev1 s" .
  show ?thesis
  proof (cases r1)
    case (Inl e)
    with a assms s1 show ?thesis by (auto simp: BuildSingleNode_def)
  next
    case (Inr m)
    obtain ok m' where b: "NodeBuild c n m = (ok, m')" by (metis surj_pair)
    show ?thesis
    proof (cases ok)
      case False
      with a Inr b assms s1 show ?thesis
        by (auto simp: BuildSingleNode_def Replay_append Replay_Cons Replay_Nil)
    next
      case True
      obtain r2 s2 ev2 where ar: "ArchiveOutputs c n (ReferencedOutputs G n) m' (OutputNames n) s1 = (r2, s2, ev2)"
        by (metis prod_cases3)
      from ArchiveOutputs_replay[OF ar] have s2: "s2 = Replay c ev2 s1" .
      from a Inr b True ar assms s1 s2 show ?thesis
        by (cases r2) (auto simp: BuildSingleNode_def Replay_append Replay_Cons Replay_Nil)
    qed
  qed
qed

text \<open>Where only \<^verbatim>\<open>MarkAsComplete\<close> writes markers, a log without it writes none.\<close>

lemma Replay_writes_no_marker:
  "OnlyMarkAsCompleteMarks c \<Longrightarrow> \<forall>e \<in> set ev. \<forall>nm. e \<noteq> EvMarkAsComplete nm \<Longrightarrow>
   \<forall>e \<in> set ev. e \<noteq> EvCleanLocal \<and> (\<forall>nm. e \<noteq> EvCleanLocalNode nm) \<Longrightarrow>
   \<not> IsComplete c s x \<Longrightarrow> \<not> IsComplete c (Replay c ev s) x"
proof (induction ev arbitrary: s)
  case Nil
  then show ?case by (simp add: Replay_Nil)
next
  case (Cons e ev)
  have step: "\<not> IsComplete c (Effect c e s) x"
  proof (cases e)
    case (EvRetreive a b)
    show ?thesis
    proof (cases "Retreive c s a b")
      case (Inl err)
      with EvRetreive Cons.prems(4) show ?thesis by simp
    next
      case (Inr v)
      obtain Manifest s2 where v: "v = (Manifest, s2)" by (cases v)
      with Inr Cons.prems(1,4) have "\<not> IsComplete c s2 x"
        unfolding OnlyMarkAsCompleteMarks_def by blast
      with EvRetreive Inr v show ?thesis by simp
    qed
  next
    case (EvArchive a b fs f)
    with Cons.prems(1,4) show ?thesis
      unfolding OnlyMarkAsCompleteMarks_def by simp
  next
    case (EvMarkAsComplete nm)
    with Cons.prems(2) show ?thesis by simp
  next
    case EvCleanLocal
    with Cons.prems(3) show ?thesis by simp
  next
    case (EvCleanLocalNode nm)
    with Cons.prems(3) show ?thesis by simp
  qed (use Cons.prems(4) in simp_all)
  from Cons.prems(2,3) have rest: "\<forall>e \<in> set ev. \<forall>nm. e \<noteq> EvMarkAsComplete nm"
    "\<forall>e \<in> set ev. e \<noteq> EvCleanLocal \<and> (\<forall>nm. e \<noteq> EvCleanLocalNode nm)" by simp_all
  from Cons.IH[OF Cons.prems(1) rest step] show ?case by (simp add: Replay_Cons)
qed

lemma BuildSingleNode_log:
  assumes "BuildSingleNode c G n s = (r, s', ev)" and "e \<in> set ev"
  shows "(\<exists>a b. e = EvRetreive a b) \<or> e = EvBuild (Name n)
         \<or> (\<exists>t fs b. e = EvArchive (Name n) t fs b) \<or> e = EvMarkAsComplete (Name n)"
proof -
  obtain r1 s1 ev1 where a: "AssembleTagNames c G n s = (r1, s1, ev1)" by (metis prod_cases3)
  have ev1: "\<And>e. e \<in> set ev1 \<Longrightarrow> \<exists>a b. e = EvRetreive a b"
    using AssembleTagNames_events[OF a] by blast
  show ?thesis
  proof (cases r1)
    case (Inl err)
    with a assms ev1 show ?thesis by (auto simp: BuildSingleNode_def)
  next
    case (Inr m)
    obtain ok m' where b: "NodeBuild c n m = (ok, m')" by (metis surj_pair)
    show ?thesis
    proof (cases ok)
      case False
      with a Inr b assms ev1 show ?thesis by (auto simp: BuildSingleNode_def)
    next
      case True
      obtain r2 s2 ev2 where ar: "ArchiveOutputs c n (ReferencedOutputs G n) m' (OutputNames n) s1 = (r2, s2, ev2)"
        by (metis prod_cases3)
      from ArchiveOutputs_events[OF ar] have ev2: "\<And>e. e \<in> set ev2 \<Longrightarrow> \<exists>t fs b. e = EvArchive (Name n) t fs b"
        by auto
      from a Inr b True ar assms(1) have "set ev \<subseteq> set ev1 \<union> {EvBuild (Name n), EvMarkAsComplete (Name n)} \<union> set ev2"
        by (cases r2) (auto simp: BuildSingleNode_def)
      with assms(2) ev1 ev2 show ?thesis by blast
    qed
  qed
qed

text \<open>
  C8: in every execution of \<^verbatim>\<open>BuildSingleNode\<close>, \<^verbatim>\<open>MarkAsComplete\<close> is called only
  after \<^verbatim>\<open>Archive\<close> has been called for every declared output tag of the node, and
  the node is never marked complete if its build logic returned failure or a step
  before archiving failed. The storage returned is the storage given after the calls
  logged. When the method returns true, the calls end with the one
  \<^verbatim>\<open>MarkAsComplete\<close>, every declared output was archived before it, the storage
  returned is the one \<^verbatim>\<open>MarkAsComplete\<close> gives for the node after those calls, and the
  tag dictionary was assembled and \<^verbatim>\<open>Node.Build\<close> returned true. In every other case
  (false returned, or an exception) no \<^verbatim>\<open>MarkAsComplete\<close> call was made, and a node
  that was not complete before is not complete in the storage returned (markers being
  written by \<^verbatim>\<open>MarkAsComplete\<close> alone).
\<close>

theorem BuildSingleNode_marks_complete_last:
  assumes "BuildSingleNode c G n s = (r, s', ev)"
  shows "s' = Replay c ev s
       \<and> (if r = Inr True
          then (\<exists>before. ev = before @ [EvMarkAsComplete (Name n)]
                  \<and> (\<forall>x. EvMarkAsComplete x \<notin> set before)
                  \<and> (\<forall>t \<in> set (OutputNames n). \<exists>fs b. EvArchive (Name n) t fs b \<in> set before)
                  \<and> s' = MarkAsComplete c (Replay c before s) (Name n))
               \<and> (\<exists>m s1 ev1 m'. AssembleTagNames c G n s = (Inr m, s1, ev1)
                     \<and> NodeBuild c n m = (True, m'))
          else (\<forall>x. EvMarkAsComplete x \<notin> set ev)
               \<and> (\<forall>x. OnlyMarkAsCompleteMarks c \<and> \<not> IsComplete c s x \<longrightarrow> \<not> IsComplete c s' x))"
proof -
  note replay = BuildSingleNode_replay[OF assms]
  have quiet: "\<forall>x. OnlyMarkAsCompleteMarks c \<and> \<not> IsComplete c s x \<longrightarrow> \<not> IsComplete c s' x"
    if nomark: "\<forall>x. EvMarkAsComplete x \<notin> set ev"
  proof (intro allI impI)
    fix x assume h: "OnlyMarkAsCompleteMarks c \<and> \<not> IsComplete c s x"
    have a: "\<forall>e \<in> set ev. \<forall>nm. e \<noteq> EvMarkAsComplete nm" using nomark by blast
    have b: "\<forall>e \<in> set ev. e \<noteq> EvCleanLocal \<and> (\<forall>nm. e \<noteq> EvCleanLocalNode nm)"
    proof (intro ballI)
      fix e assume "e \<in> set ev"
      from BuildSingleNode_log[OF assms this]
      show "e \<noteq> EvCleanLocal \<and> (\<forall>nm. e \<noteq> EvCleanLocalNode nm)" by auto
    qed
    from h have h1: "OnlyMarkAsCompleteMarks c" and h2: "\<not> IsComplete c s x" by simp_all
    from Replay_writes_no_marker[OF h1 a b h2] show "\<not> IsComplete c s' x"
      unfolding replay .
  qed
  have unmarked: ?thesis if neg: "r \<noteq> Inr True" and nomark: "\<forall>x. EvMarkAsComplete x \<notin> set ev"
  proof -
    from quiet[OF nomark] nomark
    have "(\<forall>x. EvMarkAsComplete x \<notin> set ev)
          \<and> (\<forall>x. OnlyMarkAsCompleteMarks c \<and> \<not> IsComplete c s x \<longrightarrow> \<not> IsComplete c s' x)"
      by (rule conjI[rotated])
    with neg replay show ?thesis by (simp only: if_False simp_thms, blast)
  qed
  obtain r1 s1 ev1 where a: "AssembleTagNames c G n s = (r1, s1, ev1)" by (metis prod_cases3)
  have ev1: "\<And>x. EvMarkAsComplete x \<notin> set ev1"
    using AssembleTagNames_events[OF a] by blast
  show ?thesis
  proof (cases r1)
    case (Inl e)
    with a assms ev1 have "r \<noteq> Inr True" "\<forall>x. EvMarkAsComplete x \<notin> set ev"
      by (auto simp: BuildSingleNode_def)
    then show ?thesis by (rule unmarked)
  next
    case (Inr m)
    obtain ok m' where b: "NodeBuild c n m = (ok, m')" by (metis surj_pair)
    show ?thesis
    proof (cases ok)
      case False
      with a Inr b assms ev1 have "r \<noteq> Inr True" "\<forall>x. EvMarkAsComplete x \<notin> set ev"
        by (auto simp: BuildSingleNode_def)
      then show ?thesis by (rule unmarked)
    next
      case True
      obtain r2 s2 ev2 where ar: "ArchiveOutputs c n (ReferencedOutputs G n) m' (OutputNames n) s1 = (r2, s2, ev2)"
        by (metis prod_cases3)
      from ArchiveOutputs_events[OF ar] obtain k where k:
        "ev2 = map (\<lambda>t. EvArchive (Name n) t (the (the (m' t))) (t \<in> set (ReferencedOutputs G n))) (take k (OutputNames n))"
        "r2 = Inr () \<longrightarrow> k = length (OutputNames n)" by blast
      have ev2: "\<And>x. EvMarkAsComplete x \<notin> set ev2" using k(1) by auto
      show ?thesis
      proof (cases r2)
        case (Inl e)
        with a Inr b True ar assms ev1 ev2 have "r \<noteq> Inr True" "\<forall>x. EvMarkAsComplete x \<notin> set ev"
          by (auto simp: BuildSingleNode_def)
        then show ?thesis by (rule unmarked)
      next
        case (Inr u)
        with k have full: "ev2 = map (\<lambda>t. EvArchive (Name n) t (the (the (m' t))) (t \<in> set (ReferencedOutputs G n))) (OutputNames n)"
          by simp
        from a \<open>r1 = Inr m\<close> b True ar Inr assms
        have r: "r = Inr True" and ev: "ev = (ev1 @ [EvBuild (Name n)] @ ev2) @ [EvMarkAsComplete (Name n)]"
          and s': "s' = MarkAsComplete c s2 (Name n)"
          by (auto simp: BuildSingleNode_def)
        define before where "before = ev1 @ [EvBuild (Name n)] @ ev2"
        have arch: "\<forall>t \<in> set (OutputNames n). \<exists>fs b. EvArchive (Name n) t fs b \<in> set before"
          unfolding before_def full by auto
        have nomark: "\<forall>x. EvMarkAsComplete x \<notin> set before"
          unfolding before_def using ev1 ev2 by simp
        have "s2 = Replay c before s"
          unfolding before_def
          using AssembleTagNames_replay[OF a] ArchiveOutputs_replay[OF ar]
          by (simp add: Replay_append Replay_Cons Replay_Nil)
        with s' have st: "s' = MarkAsComplete c (Replay c before s) (Name n)" by simp
        from ev have ev': "ev = before @ [EvMarkAsComplete (Name n)]" by (simp add: before_def)
        have first: "\<exists>before. ev = before @ [EvMarkAsComplete (Name n)]
                \<and> (\<forall>x. EvMarkAsComplete x \<notin> set before)
                \<and> (\<forall>t \<in> set (OutputNames n). \<exists>fs b. EvArchive (Name n) t fs b \<in> set before)
                \<and> s' = MarkAsComplete c (Replay c before s) (Name n)"
          by (intro exI[of _ before] conjI ev' nomark arch st)
        have second: "\<exists>m s1 ev1 m'. AssembleTagNames c G n s = (Inr m, s1, ev1) \<and> NodeBuild c n m = (True, m')"
          using a \<open>r1 = Inr m\<close> b True by auto
        from replay first second show ?thesis
          unfolding r by (simp only: if_True simp_thms)
      qed
    qed
  qed
qed

lemma Sample_Compile_run:
  "BuildSingleNode Sample SampleGraph Compile EmptyStorage =
     (Inr True,
      \<lparr>UnchangedOnDisk = [], CompleteMarkers = [''Compile''],
       LocalManifests = [((''Compile'', ''Symbols''), \<lparr>Files = [''Symbols'']\<rparr>),
                         ((''Compile'', ''Binaries''), \<lparr>Files = [''Binaries'']\<rparr>)],
       SharedManifests = Some [((''Compile'', ''Binaries''), \<lparr>Files = [''Binaries'']\<rparr>)],
       bWriteToShared = True\<rparr>,
      [EvBuild ''Compile'', EvArchive ''Compile'' ''Binaries'' [''/UE4/Binaries''] True,
       EvArchive ''Compile'' ''Symbols'' [''/UE4/Symbols''] False, EvMarkAsComplete ''Compile''])"
  by code_simp

lemma Failing_Compile_run:
  "BuildSingleNode (Sample\<lparr>NodeBuild := FailingBuild\<rparr>) SampleGraph Compile EmptyStorage =
     (Inr False, EmptyStorage, [EvBuild ''Compile''])"
  by code_simp

lemma Spec_OnlyMarkAsCompleteMarks: "OnlyMarkAsCompleteMarks (SpecCollaborators root b rd asm)"
  unfolding OnlyMarkAsCompleteMarks_def SpecCollaborators_def
  by (auto simp: Spec_IsComplete_def Spec_Retreive_def Spec_Archive_def Let_def split: option.splits)

theorem BuildSingleNode_marks_complete_last_witness:
  "(\<exists>before. snd (snd (BuildSingleNode Sample SampleGraph Compile EmptyStorage))
        = before @ [EvMarkAsComplete ''Compile'']
      \<and> EvArchive ''Compile'' ''Binaries'' [''/UE4/Binaries''] True \<in> set before
      \<and> EvArchive ''Compile'' ''Symbols'' [''/UE4/Symbols''] False \<in> set before
      \<and> fst (snd (BuildSingleNode Sample SampleGraph Compile EmptyStorage))
          = MarkAsComplete Sample (Replay Sample before EmptyStorage) ''Compile'')
   \<and> IsComplete Sample (fst (snd (BuildSingleNode Sample SampleGraph Compile EmptyStorage))) ''Compile''
   \<and> fst (BuildSingleNode (Sample\<lparr>NodeBuild := FailingBuild\<rparr>) SampleGraph Compile EmptyStorage) = Inr False
   \<and> EvMarkAsComplete ''Compile'' \<notin>
       set (snd (snd (BuildSingleNode (Sample\<lparr>NodeBuild := FailingBuild\<rparr>) SampleGraph Compile EmptyStorage)))
   \<and> \<not> IsComplete (Sample\<lparr>NodeBuild := FailingBuild\<rparr>)
         (fst (snd (BuildSingleNode (Sample\<lparr>NodeBuild := FailingBuild\<rparr>) SampleGraph Compile EmptyStorage)))
         ''Compile''"
proof -
  let ?before = "[EvBuild ''Compile'', EvArchive ''Compile'' ''Binaries'' [''/UE4/Binaries''] True,
                  EvArchive ''Compile'' ''Symbols'' [''/UE4/Symbols''] False]"
  let ?after = "\<lparr>UnchangedOnDisk = [], CompleteMarkers = [''Compile''],
       LocalManifests = [((''Compile'', ''Symbols''), \<lparr>Files = [''Symbols'']\<rparr>),
                         ((''Compile'', ''Binaries''), \<lparr>Files = [''Binaries'']\<rparr>)],
       SharedManifests = Some [((''Compile'', ''Binaries''), \<lparr>Files = [''Binaries'']\<rparr>)],
       bWriteToShared = True\<rparr>"
  have contract: "OnlyMarkAsCompleteMarks (Sample\<lparr>NodeBuild := FailingBuild\<rparr>)"
    using Spec_OnlyMarkAsCompleteMarks[of "''/UE4''" FailingBuild SampleReader SampleAssemblies]
    by (simp add: Sample_def SpecCollaborators_def)
  have fresh: "\<not> IsComplete (Sample\<lparr>NodeBuild := FailingBuild\<rparr>) EmptyStorage ''Compile''"
    by code_simp
  have "(\<forall>x. EvMarkAsComplete x \<notin> set [EvBuild ''Compile''])
        \<and> (\<forall>x. OnlyMarkAsCompleteMarks (Sample\<lparr>NodeBuild := FailingBuild\<rparr>)
                 \<and> \<not> IsComplete (Sample\<lparr>NodeBuild := FailingBuild\<rparr>) EmptyStorage x
               \<longrightarrow> \<not> IsComplete (Sample\<lparr>NodeBuild := FailingBuild\<rparr>) EmptyStorage x)"
    using BuildSingleNode_marks_complete_last[OF Failing_Compile_run, THEN conjunct2] by simp
  with contract fresh
  have failed: "EvMarkAsComplete ''Compile'' \<notin> set [EvBuild ''Compile'']"
      "\<not> IsComplete (Sample\<lparr>NodeBuild := FailingBuild\<rparr>) EmptyStorage ''Compile''"
    by blast+
  have marked: "IsComplete Sample ?after ''Compile''"
    by code_simp
  note succeeded = BuildSingleNode_marks_complete_last[OF Sample_Compile_run,
      THEN conjunct2, unfolded if_P[OF refl], THEN conjunct1]
  then obtain before where
      b: "[EvBuild ''Compile'', EvArchive ''Compile'' ''Binaries'' [''/UE4/Binaries''] True,
          EvArchive ''Compile'' ''Symbols'' [''/UE4/Symbols''] False, EvMarkAsComplete ''Compile'']
          = before @ [EvMarkAsComplete (Name Compile)]"
      and st: "?after = MarkAsComplete Sample (Replay Sample before EmptyStorage) (Name Compile)"
    by blast
  have nm: "Name Compile = ''Compile''" by (simp add: Compile_def)
  have "?before @ [EvMarkAsComplete ''Compile''] = before @ [EvMarkAsComplete ''Compile'']"
    using b unfolding nm by simp
  then have before: "before = ?before" by simp
  have conc: "snd (snd (BuildSingleNode Sample SampleGraph Compile EmptyStorage))
          = ?before @ [EvMarkAsComplete ''Compile'']
      \<and> EvArchive ''Compile'' ''Binaries'' [''/UE4/Binaries''] True \<in> set ?before
      \<and> EvArchive ''Compile'' ''Symbols'' [''/UE4/Symbols''] False \<in> set ?before
      \<and> fst (snd (BuildSingleNode Sample SampleGraph Compile EmptyStorage))
          = MarkAsComplete Sample (Replay Sample ?before EmptyStorage) ''Compile''"
    using st before nm by (simp add: Sample_Compile_run)
  have first: "\<exists>before. snd (snd (BuildSingleNode Sample SampleGraph Compile EmptyStorage))
        = before @ [EvMarkAsComplete ''Compile'']
      \<and> EvArchive ''Compile'' ''Binaries'' [''/UE4/Binaries''] True \<in> set before
      \<and> EvArchive ''Compile'' ''Symbols'' [''/UE4/Symbols''] False \<in> set before
      \<and> fst (snd (BuildSingleNode Sample SampleGraph Compile EmptyStorage))
          = MarkAsComplete Sample (Replay Sample before EmptyStorage) ''Compile''"
    by (rule exI[of _ "?before"]) (rule conc)
  show ?thesis
    using first failed marked by (simp add: Sample_Compile_run Failing_Compile_run)
qed

section \<open>The flag of Archive\<close>

lemma ReferencedOutputs_iff:
  "t \<in> set (ReferencedOutputs G n) \<longleftrightarrow>
     (\<exists>Group \<in> set (Groups G). \<exists>OtherNode \<in> set (Nodes Group).
        (n \<notin> set (Nodes Group) \<or> ControllingTrigger n \<noteq> ControllingTrigger OtherNode)
        \<and> t \<in> set (InputNames OtherNode))"
  unfolding ReferencedOutputs_def by (auto simp: Let_def split: if_splits)

lemma BuildSingleNode_events:
  assumes "BuildSingleNode c G n s = (r, s', ev)"
  shows "\<exists>ev1 k. (\<forall>e \<in> set ev1. \<exists>a b. e = EvRetreive a b)
           \<and> (r = Inr True \<longrightarrow> k = length (OutputNames n))
           \<and> (\<exists>m' tl. ev = ev1 @ tl
                 \<and> set tl \<subseteq> {EvBuild (Name n), EvMarkAsComplete (Name n)}
                      \<union> set (map (\<lambda>t. EvArchive (Name n) t (the (the (m' t))) (t \<in> set (ReferencedOutputs G n)))
                            (take k (OutputNames n)))
                 \<and> (r = Inr True \<longrightarrow> set (map (\<lambda>t. EvArchive (Name n) t (the (the (m' t))) (t \<in> set (ReferencedOutputs G n)))
                            (OutputNames n)) \<subseteq> set tl))"
proof -
  obtain r1 s1 ev1 where a: "AssembleTagNames c G n s = (r1, s1, ev1)" by (metis prod_cases3)
  have ev1: "\<forall>e \<in> set ev1. \<exists>a b. e = EvRetreive a b"
    using AssembleTagNames_events[OF a] by blast
  show ?thesis
  proof (cases r1)
    case (Inl e)
    with a assms have "r = Inl e" "ev = ev1 @ []" by (auto simp: BuildSingleNode_def)
    with ev1 show ?thesis by (intro exI[of _ ev1] exI[of _ 0]) auto
  next
    case (Inr m)
    obtain ok m' where b: "NodeBuild c n m = (ok, m')" by (metis surj_pair)
    show ?thesis
    proof (cases ok)
      case False
      with a Inr b assms have "r = Inr False" "ev = ev1 @ [EvBuild (Name n)]"
        by (auto simp: BuildSingleNode_def)
      with ev1 show ?thesis by (intro exI[of _ ev1] exI[of _ 0]) auto
    next
      case True
      obtain r2 s2 ev2 where ar: "ArchiveOutputs c n (ReferencedOutputs G n) m' (OutputNames n) s1 = (r2, s2, ev2)"
        by (metis prod_cases3)
      from ArchiveOutputs_events[OF ar] obtain k where k:
        "ev2 = map (\<lambda>t. EvArchive (Name n) t (the (the (m' t))) (t \<in> set (ReferencedOutputs G n))) (take k (OutputNames n))"
        "r2 = Inr () \<longrightarrow> k = length (OutputNames n)" by blast
      show ?thesis
      proof (cases r2)
        case (Inl e)
        with a Inr b True ar assms have "r = Inl e" "ev = ev1 @ ([EvBuild (Name n)] @ ev2)"
          by (auto simp: BuildSingleNode_def)
        with ev1 k(1) show ?thesis
          by (intro exI[of _ ev1] exI[of _ k]) auto
      next
        case (Inr u)
        with a \<open>r1 = Inr m\<close> b True ar assms
        have "r = Inr True" "ev = ev1 @ ([EvBuild (Name n)] @ ev2 @ [EvMarkAsComplete (Name n)])"
          by (auto simp: BuildSingleNode_def)
        moreover from Inr k have "k = length (OutputNames n)" by simp
        ultimately show ?thesis using ev1 k(1)
          by (intro exI[of _ ev1] exI[of _ k]) auto
      qed
    qed
  qed
qed

lemma ConsumedOutsideScope_iff:
  "ConsumedOutsideScope G n t \<longleftrightarrow> t \<in> set (ReferencedOutputs G n)"
  unfolding ConsumedOutsideScope_def ReferencedOutputs_iff ..

lemma ArchiveOutputs_complete:
  "ArchiveOutputs c n refd m ts s = (Inr u, s', ev) \<Longrightarrow>
     (\<forall>t \<in> set ts. \<exists>fs. m t = Some (Some fs))
     \<and> ev = map (\<lambda>t. EvArchive (Name n) t (the (the (m t))) (t \<in> set refd)) ts
     \<and> s' = fold (\<lambda>t st. Archive c st (Name n) t (the (the (m t))) (t \<in> set refd)) ts s"
proof (induction ts arbitrary: s s' ev)
  case Nil
  then show ?case by simp
next
  case (Cons t ts)
  show ?case
  proof (cases "m t")
    case None
    with Cons.prems show ?thesis by simp
  next
    case (Some v)
    show ?thesis
    proof (cases v)
      case None
      with Some Cons.prems show ?thesis by simp
    next
      case (Some fs)
      from \<open>m t = Some v\<close> Some Cons.prems obtain ev2 where
        rec: "ArchiveOutputs c n refd m ts (Archive c s (Name n) t fs (t \<in> set refd)) = (Inr u, s', ev2)"
        and ev: "ev = EvArchive (Name n) t fs (t \<in> set refd) # ev2"
        by (auto split: prod.splits)
      from Cons.IH[OF rec] ev \<open>m t = Some v\<close> Some show ?thesis by simp
    qed
  qed
qed

text \<open>
  C6: for every node built by \<^verbatim>\<open>BuildSingleNode\<close> and every one of its declared output
  tags, the output is archived with the must-push-to-shared flag set if and only if
  some node in a different agent group (a group that does not contain the node), or in
  the same agent group but with a different \<^verbatim>\<open>ControllingTrigger\<close>, lists that tag among
  its input names. The storage returned is the storage given after the calls logged,
  each made with the arguments logged; every \<^verbatim>\<open>Archive\<close> call of a run is for the node
  and one of its declared outputs and carries exactly that flag; and a run that returns
  true has handed \<^verbatim>\<open>Archive\<close> every declared output once, in declaration order, with the
  files \<^verbatim>\<open>Node.Build\<close> bound to the tag and that flag, on the storage left by the
  retrieval of the inputs, and returns the storage so obtained, marked complete.
\<close>

theorem BuildSingleNode_push_to_shared_flag:
  assumes "BuildSingleNode c G n s = (r, s', ev)"
  shows "s' = Replay c ev s
       \<and> (\<forall>nm t fs b. EvArchive nm t fs b \<in> set ev \<longrightarrow>
            nm = Name n \<and> t \<in> set (OutputNames n) \<and> (b \<longleftrightarrow> ConsumedOutsideScope G n t))
       \<and> (r = Inr True \<longrightarrow>
            (\<exists>m s1 ev1 m'. AssembleTagNames c G n s = (Inr m, s1, ev1)
               \<and> NodeBuild c n m = (True, m')
               \<and> (\<forall>t \<in> set (OutputNames n). \<exists>fs. m' t = Some (Some fs))
               \<and> ev = ev1 @ [EvBuild (Name n)]
                      @ map (\<lambda>t. EvArchive (Name n) t (the (the (m' t))) (ConsumedOutsideScope G n t))
                          (OutputNames n)
                      @ [EvMarkAsComplete (Name n)]
               \<and> s' = MarkAsComplete c
                        (fold (\<lambda>t st. Archive c st (Name n) t (the (the (m' t))) (ConsumedOutsideScope G n t))
                           (OutputNames n) s1)
                        (Name n)))"
proof -
  note replay = BuildSingleNode_replay[OF assms]
  from BuildSingleNode_events[OF assms] obtain ev1 k m' tl where
    ev1: "\<forall>e \<in> set ev1. \<exists>a b. e = EvRetreive a b" and
    ev: "ev = ev1 @ tl" and
    tl: "set tl \<subseteq> {EvBuild (Name n), EvMarkAsComplete (Name n)}
                      \<union> set (map (\<lambda>t. EvArchive (Name n) t (the (the (m' t))) (t \<in> set (ReferencedOutputs G n)))
                            (take k (OutputNames n)))"
    by blast
  have "\<And>nm t fs b. EvArchive nm t fs b \<in> set ev \<Longrightarrow>
          nm = Name n \<and> t \<in> set (OutputNames n) \<and> b = (t \<in> set (ReferencedOutputs G n))"
  proof -
    fix nm t fs b assume "EvArchive nm t fs b \<in> set ev"
    with ev ev1 have "EvArchive nm t fs b \<in> set tl" by auto
    with tl have "EvArchive nm t fs b \<in> set (map (\<lambda>t. EvArchive (Name n) t (the (the (m' t))) (t \<in> set (ReferencedOutputs G n)))
                            (take k (OutputNames n)))" by auto
    then show "nm = Name n \<and> t \<in> set (OutputNames n) \<and> b = (t \<in> set (ReferencedOutputs G n))"
      by (auto dest: in_set_takeD)
  qed
  then have flags: "\<forall>nm t fs b. EvArchive nm t fs b \<in> set ev \<longrightarrow>
            nm = Name n \<and> t \<in> set (OutputNames n) \<and> (b \<longleftrightarrow> ConsumedOutsideScope G n t)"
    unfolding ConsumedOutsideScope_iff by blast
  have built: "\<exists>m s1 ev1 m'. AssembleTagNames c G n s = (Inr m, s1, ev1)
               \<and> NodeBuild c n m = (True, m')
               \<and> (\<forall>t \<in> set (OutputNames n). \<exists>fs. m' t = Some (Some fs))
               \<and> ev = ev1 @ [EvBuild (Name n)]
                      @ map (\<lambda>t. EvArchive (Name n) t (the (the (m' t))) (ConsumedOutsideScope G n t))
                          (OutputNames n)
                      @ [EvMarkAsComplete (Name n)]
               \<and> s' = MarkAsComplete c
                        (fold (\<lambda>t st. Archive c st (Name n) t (the (the (m' t))) (ConsumedOutsideScope G n t))
                           (OutputNames n) s1)
                        (Name n)"
    if ok: "r = Inr True"
  proof -
    obtain r1 s1 ev1 where a: "AssembleTagNames c G n s = (r1, s1, ev1)" by (metis prod_cases3)
    from a assms ok obtain m where r1: "r1 = Inr m"
      by (cases r1) (auto simp: BuildSingleNode_def)
    obtain b m' where nb: "NodeBuild c n m = (b, m')" by (metis surj_pair)
    from a r1 nb assms ok have b: "b" by (cases b) (auto simp: BuildSingleNode_def)
    obtain r2 s2 ev2 where ar: "ArchiveOutputs c n (ReferencedOutputs G n) m' (OutputNames n) s1 = (r2, s2, ev2)"
      by (metis prod_cases3)
    from a r1 nb b ar assms ok obtain u where r2: "r2 = Inr u"
      by (cases r2) (auto simp: BuildSingleNode_def)
    from a r1 nb b ar r2 assms
    have ev: "ev = ev1 @ [EvBuild (Name n)] @ ev2 @ [EvMarkAsComplete (Name n)]"
      and s': "s' = MarkAsComplete c s2 (Name n)"
      by (auto simp: BuildSingleNode_def)
    from ArchiveOutputs_complete[OF ar[unfolded r2]]
    have bound: "\<forall>t \<in> set (OutputNames n). \<exists>fs. m' t = Some (Some fs)"
      and ev2: "ev2 = map (\<lambda>t. EvArchive (Name n) t (the (the (m' t))) (ConsumedOutsideScope G n t)) (OutputNames n)"
      and s2: "s2 = fold (\<lambda>t st. Archive c st (Name n) t (the (the (m' t))) (ConsumedOutsideScope G n t)) (OutputNames n) s1"
      unfolding ConsumedOutsideScope_iff by blast+
    from a r1 have a': "AssembleTagNames c G n s = (Inr m, s1, ev1)" by simp
    from nb b have nb': "NodeBuild c n m = (True, m')" by simp
    show ?thesis
      by (intro exI[of _ m] exI[of _ s1] exI[of _ ev1] exI[of _ m'] conjI a' nb' bound
            ev[unfolded ev2] s'[unfolded s2])
  qed
  from replay flags built show ?thesis by (intro conjI impI)
qed

theorem BuildSingleNode_push_to_shared_flag_witness:
  "ConsumedOutsideScope SampleGraph Compile ''Binaries''
   \<and> \<not> ConsumedOutsideScope SampleGraph Compile ''Symbols''
   \<and> snd (snd (BuildSingleNode Sample SampleGraph Compile EmptyStorage))
       = [EvBuild ''Compile'', EvArchive ''Compile'' ''Binaries'' [''/UE4/Binaries''] True,
          EvArchive ''Compile'' ''Symbols'' [''/UE4/Symbols''] False, EvMarkAsComplete ''Compile'']
   \<and> fst (snd (BuildSingleNode Sample SampleGraph Compile EmptyStorage))
       = MarkAsComplete Sample
           (Archive Sample
              (Archive Sample EmptyStorage ''Compile'' ''Binaries'' [''/UE4/Binaries''] True)
              ''Compile'' ''Symbols'' [''/UE4/Symbols''] False)
           ''Compile''
   \<and> SharedManifests (fst (snd (BuildSingleNode Sample SampleGraph Compile EmptyStorage)))
       = Some [((''Compile'', ''Binaries''), \<lparr>Files = [''Binaries'']\<rparr>)]"
proof -
  let ?run = "BuildSingleNode Sample SampleGraph Compile EmptyStorage"
  let ?ev = "[EvBuild ''Compile'', EvArchive ''Compile'' ''Binaries'' [''/UE4/Binaries''] True,
          EvArchive ''Compile'' ''Symbols'' [''/UE4/Symbols''] False, EvMarkAsComplete ''Compile'']"
  note replay = BuildSingleNode_push_to_shared_flag[OF Sample_Compile_run, THEN conjunct1]
  note flags = BuildSingleNode_push_to_shared_flag[OF Sample_Compile_run, THEN conjunct2, THEN conjunct1]
  have "EvArchive ''Compile'' ''Binaries'' [''/UE4/Binaries''] True \<in> set ?ev" by simp
  with flags have a: "ConsumedOutsideScope SampleGraph Compile ''Binaries''" by blast
  have "EvArchive ''Compile'' ''Symbols'' [''/UE4/Symbols''] False \<in> set ?ev" by simp
  with flags have b: "\<not> ConsumedOutsideScope SampleGraph Compile ''Symbols''" by blast
  have c: "snd (snd ?run) = ?ev" by (simp add: Sample_Compile_run)
  have "Replay Sample ?ev EmptyStorage
       = MarkAsComplete Sample
           (Archive Sample
              (Archive Sample EmptyStorage ''Compile'' ''Binaries'' [''/UE4/Binaries''] True)
              ''Compile'' ''Symbols'' [''/UE4/Symbols''] False)
           ''Compile''"
    by (simp add: Replay_def)
  with replay have "fst (snd ?run)
       = MarkAsComplete Sample
           (Archive Sample
              (Archive Sample EmptyStorage ''Compile'' ''Binaries'' [''/UE4/Binaries''] True)
              ''Compile'' ''Symbols'' [''/UE4/Symbols''] False)
           ''Compile''"
    unfolding Sample_Compile_run snd_conv fst_conv by (rule trans)
  moreover have "SharedManifests (fst (snd ?run))
       = Some [((''Compile'', ''Binaries''), \<lparr>Files = [''Binaries'']\<rparr>)]"
    by (simp add: Sample_Compile_run)
  ultimately show ?thesis using a b c by (intro conjI)
qed

section \<open>The tag dictionary handed to Node.Build\<close>

lemma SeedTagNames_fold:
  "fold (\<lambda>OutputName m. m(OutputName \<mapsto> None)) ts m0 t =
     (if t \<in> set ts then Some None else m0 t)"
  by (induction ts arbitrary: m0) auto

lemma SeedTagNames_apply:
  "SeedTagNames G t =
     (if t \<in> set (concat (map OutputNames (AllNodes G))) then Some None else None)"
  unfolding SeedTagNames_def by (simp only: SeedTagNames_fold)

lemma PlaceholderOutputs_fold:
  "fold (\<lambda>OutputName m'. m'(OutputName \<mapsto> Some [])) ts m0 t =
     (if t \<in> set ts then Some (Some []) else m0 t)"
  by (induction ts arbitrary: m0) auto

lemma PlaceholderOutputs_apply:
  "PlaceholderOutputs n m t = (if t \<in> set (OutputNames n) then Some (Some []) else m t)"
  unfolding PlaceholderOutputs_def by (rule PlaceholderOutputs_fold)

lemma FetchInputs_bindings:
  "FetchInputs c G ins m0 s = (Inr m, s', ev) \<Longrightarrow>
     (\<forall>t. t \<notin> set ins \<longrightarrow> m t = m0 t) \<and>
     (\<forall>t \<in> set ins. \<exists>pre post producer m1 s1 ev1 Manifest s2.
         ins = pre @ t # post \<and> t \<notin> set post \<and>
         map_of (OutputNameToNode G) t = Some producer \<and>
         FetchInputs c G pre m0 s = (Inr m1, s1, ev1) \<and>
         Retreive c s1 (Name producer) t = Inr (Manifest, s2) \<and>
         m t = Some (Some (remdups (map (ToFileReference c) (Files Manifest)))))"
proof (induction ins arbitrary: m0 s m s' ev)
  case Nil
  then show ?case by simp
next
  case (Cons i rest)
  from Cons.prems obtain producer where p: "map_of (OutputNameToNode G) i = Some producer"
    by (auto split: option.splits)
  from Cons.prems p obtain Manifest s2 where r: "Retreive c s (Name producer) i = Inr (Manifest, s2)"
    by (auto split: sum.splits)
  let ?m1 = "m0(i \<mapsto> Some (remdups (map (ToFileReference c) (Files Manifest))))"
  from Cons.prems p r obtain ev' where rec: "FetchInputs c G rest ?m1 s2 = (Inr m, s', ev')"
    by (auto split: prod.splits)
  note IH = Cons.IH[OF rec]
  have one: "\<forall>t. t \<notin> set (i # rest) \<longrightarrow> m t = m0 t"
    using IH by auto
  have two: "\<exists>pre post producer m1 s1 ev1 Manifest s2.
         i # rest = pre @ t # post \<and> t \<notin> set post \<and>
         map_of (OutputNameToNode G) t = Some producer \<and>
         FetchInputs c G pre m0 s = (Inr m1, s1, ev1) \<and>
         Retreive c s1 (Name producer) t = Inr (Manifest, s2) \<and>
         m t = Some (Some (remdups (map (ToFileReference c) (Files Manifest))))"
    if t: "t \<in> set (i # rest)" for t
  proof (cases "t \<in> set rest")
    case True
    with IH obtain pre post producer' m1 s1 ev1 Manifest' s2' where
      d: "rest = pre @ t # post" "t \<notin> set post"
         "map_of (OutputNameToNode G) t = Some producer'"
         "FetchInputs c G pre ?m1 s2 = (Inr m1, s1, ev1)"
         "Retreive c s1 (Name producer') t = Inr (Manifest', s2')"
         "m t = Some (Some (remdups (map (ToFileReference c) (Files Manifest'))))"
      by blast
    have "FetchInputs c G (i # pre) m0 s = (Inr m1, s1, EvRetreive (Name producer) i # ev1)"
      using p r d(4) by simp
    with d show ?thesis
      by (intro exI[of _ "i # pre"] exI[of _ post] exI[of _ producer'] exI[of _ m1] exI[of _ s1]
                exI[of _ "EvRetreive (Name producer) i # ev1"] exI[of _ Manifest'] exI[of _ s2'])
         simp
  next
    case False
    with t have ti: "t = i" by simp
    from IH False have "m t = ?m1 t" by blast
    with ti have "m t = Some (Some (remdups (map (ToFileReference c) (Files Manifest))))" by simp
    with ti False p r show ?thesis
      by (intro exI[of _ "[]"] exI[of _ rest] exI[of _ producer] exI[of _ m0] exI[of _ s]
                exI[of _ "[]"] exI[of _ Manifest] exI[of _ s2])
         simp
  qed
  from one two show ?case by blast
qed

text \<open>
  C7: when \<^verbatim>\<open>BuildSingleNode\<close> invokes a node's build logic, the dictionary it passes
  has every output tag name of every node of the graph as a key, bound to \<^verbatim>\<open>null\<close>
  unless it is one of the node's own inputs or outputs; each of the node's input tag
  names is bound to exactly the files of the manifest that \<^verbatim>\<open>Retreive\<close> returned for
  its producing node (the node \<^verbatim>\<open>OutputNameToNode\<close> gives for the tag), each resolved
  with \<^verbatim>\<open>ToFileReference\<close>; and each of the node's own output tag names is bound to an
  empty set. The node does not list one of its own outputs as an input (no node
  depends on itself). The retrieval is the one made for the last occurrence of the tag
  among the inputs, in the storage state left by the retrievals before it. The last
  conjunct ties the dictionary to the call of \<^verbatim>\<open>Node.Build\<close>: its answer on this
  dictionary decides what \<^verbatim>\<open>BuildSingleNode\<close> returns.
\<close>

theorem AssembleTagNames_bindings:
  assumes run: "AssembleTagNames c G n s = (Inr m, s', ev)"
    and disj: "set (InputNames n) \<inter> set (OutputNames n) = {}"
  shows "(\<forall>t \<in> set (concat (map OutputNames (AllNodes G))).
            m t \<noteq> None \<and> (t \<notin> set (InputNames n) \<and> t \<notin> set (OutputNames n) \<longrightarrow> m t = Some None))
       \<and> (\<forall>t \<in> set (InputNames n). \<exists>pre post producer m1 s1 ev1 Manifest s2.
            InputNames n = pre @ t # post \<and> t \<notin> set post \<and>
            map_of (OutputNameToNode G) t = Some producer \<and>
            FetchInputs c G pre (SeedTagNames G) s = (Inr m1, s1, ev1) \<and>
            Retreive c s1 (Name producer) t = Inr (Manifest, s2) \<and>
            m t = Some (Some (remdups (map (ToFileReference c) (Files Manifest)))))
       \<and> (\<forall>t \<in> set (OutputNames n). m t = Some (Some []))
       \<and> (\<forall>m'. NodeBuild c n m = (False, m') \<longrightarrow>
            BuildSingleNode c G n s = (Inr False, s', ev @ [EvBuild (Name n)]))"
proof -
  from run obtain mi where f: "FetchInputs c G (InputNames n) (SeedTagNames G) s = (Inr mi, s', ev)"
    and m: "m = PlaceholderOutputs n mi"
    by (auto simp: AssembleTagNames_def split: prod.splits sum.splits)
  note B = FetchInputs_bindings[OF f]
  have outs: "\<forall>t \<in> set (OutputNames n). m t = Some (Some [])"
    by (simp add: m PlaceholderOutputs_apply)
  have ins: "\<forall>t \<in> set (InputNames n). \<exists>pre post producer m1 s1 ev1 Manifest s2.
            InputNames n = pre @ t # post \<and> t \<notin> set post \<and>
            map_of (OutputNameToNode G) t = Some producer \<and>
            FetchInputs c G pre (SeedTagNames G) s = (Inr m1, s1, ev1) \<and>
            Retreive c s1 (Name producer) t = Inr (Manifest, s2) \<and>
            m t = Some (Some (remdups (map (ToFileReference c) (Files Manifest))))"
  proof
    fix t assume t: "t \<in> set (InputNames n)"
    with disj have "t \<notin> set (OutputNames n)" by blast
    then have "m t = mi t" by (simp add: m PlaceholderOutputs_apply)
    with B t show "\<exists>pre post producer m1 s1 ev1 Manifest s2.
            InputNames n = pre @ t # post \<and> t \<notin> set post \<and>
            map_of (OutputNameToNode G) t = Some producer \<and>
            FetchInputs c G pre (SeedTagNames G) s = (Inr m1, s1, ev1) \<and>
            Retreive c s1 (Name producer) t = Inr (Manifest, s2) \<and>
            m t = Some (Some (remdups (map (ToFileReference c) (Files Manifest))))"
      by simp
  qed
  have seeded: "\<forall>t \<in> set (concat (map OutputNames (AllNodes G))).
            m t \<noteq> None \<and> (t \<notin> set (InputNames n) \<and> t \<notin> set (OutputNames n) \<longrightarrow> m t = Some None)"
  proof
    fix t assume t: "t \<in> set (concat (map OutputNames (AllNodes G)))"
    then have seed: "SeedTagNames G t = Some None" by (simp only: SeedTagNames_apply if_True)
    show "m t \<noteq> None \<and> (t \<notin> set (InputNames n) \<and> t \<notin> set (OutputNames n) \<longrightarrow> m t = Some None)"
    proof (cases "t \<in> set (OutputNames n)")
      case True
      with outs show ?thesis by simp
    next
      case no: False
      then have mt: "m t = mi t" by (simp add: m PlaceholderOutputs_apply)
      show ?thesis
      proof (cases "t \<in> set (InputNames n)")
        case True
        with ins mt show ?thesis by fastforce
      next
        case False
        with B have "mi t = SeedTagNames G t" by blast
        with mt seed show ?thesis by simp
      qed
    qed
  qed
  have link: "\<forall>m'. NodeBuild c n m = (False, m') \<longrightarrow>
            BuildSingleNode c G n s = (Inr False, s', ev @ [EvBuild (Name n)])"
    using run by (simp add: BuildSingleNode_def)
  from seeded ins outs link show ?thesis by blast
qed

lemma Sample_Package_tags:
  "AssembleTagNames Sample SampleGraph Package AfterCompile =
     (Inr (PlaceholderOutputs Package ((SeedTagNames SampleGraph)(''Binaries'' \<mapsto> Some [''/UE4/Binaries'']))),
      AfterCompile, [EvRetreive ''Compile'' ''Binaries''])"
  by (simp add: AssembleTagNames_def Package_def Sample_def SpecCollaborators_def SampleGraph_def
        Compile_def Spec_Retreive_def AfterCompile_def Spec_ToFileReference_def)

theorem AssembleTagNames_bindings_witness:
  "set (InputNames Package) \<inter> set (OutputNames Package) = {}
   \<and> (\<exists>m. AssembleTagNames Sample SampleGraph Package AfterCompile
             = (Inr m, AfterCompile, [EvRetreive ''Compile'' ''Binaries''])
          \<and> m ''Binaries'' = Some (Some [''/UE4/Binaries''])
          \<and> m ''Archive'' = Some (Some [])
          \<and> m ''Symbols'' = Some None
          \<and> m ''Deployed'' = Some None)"
proof -
  let ?m = "PlaceholderOutputs Package ((SeedTagNames SampleGraph)(''Binaries'' \<mapsto> Some [''/UE4/Binaries'']))"
  have disj: "set (InputNames Package) \<inter> set (OutputNames Package) = {}"
    by (simp add: Package_def)
  note T = AssembleTagNames_bindings[OF Sample_Package_tags disj]
  have mem: "''Symbols'' \<in> set (concat (map OutputNames (AllNodes SampleGraph)))"
            "''Deployed'' \<in> set (concat (map OutputNames (AllNodes SampleGraph)))"
    by (simp_all add: AllNodes_def SampleGraph_def Compile_def Package_def Deploy_def)
  have notin: "''Symbols'' \<notin> set (InputNames Package) \<and> ''Symbols'' \<notin> set (OutputNames Package)"
              "''Deployed'' \<notin> set (InputNames Package) \<and> ''Deployed'' \<notin> set (OutputNames Package)"
    by (simp_all add: Package_def)
  from T have seeded: "\<forall>t \<in> set (concat (map OutputNames (AllNodes SampleGraph))).
            ?m t \<noteq> None \<and> (t \<notin> set (InputNames Package) \<and> t \<notin> set (OutputNames Package) \<longrightarrow> ?m t = Some None)"
    by (rule conjunct1)
  from T have "\<forall>t \<in> set (OutputNames Package). ?m t = Some (Some [])"
    by blast
  then have a: "?m ''Archive'' = Some (Some [])"
    by (simp add: Package_def)
  from bspec[OF seeded mem(1)] notin(1) bspec[OF seeded mem(2)] notin(2)
  have b: "?m ''Symbols'' = Some None" "?m ''Deployed'' = Some None"
    by blast+
  have c: "?m ''Binaries'' = Some (Some [''/UE4/Binaries''])"
    by (simp add: PlaceholderOutputs_apply Package_def)
  from disj a b c Sample_Package_tags show ?thesis by blast
qed

section \<open>The execution loop of BuildAllNodes and the exit code\<close>

lemma ExecuteNodes_append:
  "ExecuteNodes c G (xs @ ys) s =
     (case ExecuteNodes c G xs s of
        (Inr True, s1, ev1) \<Rightarrow>
          (case ExecuteNodes c G ys s1 of (r, s2, ev2) \<Rightarrow> (r, s2, ev1 @ ev2))
      | (Inr False, s1, ev1) \<Rightarrow> (Inr False, s1, ev1)
      | (Inl e, s1, ev1) \<Rightarrow> (Inl e, s1, ev1))"
proof (induction xs arbitrary: s)
  case Nil
  then show ?case by (simp split: prod.splits)
next
  case (Cons x xs)
  show ?case
  proof (cases "IsComplete c s (Name x)")
    case True
    then show ?thesis
      by (simp add: Cons.IH split: prod.splits sum.splits bool.splits)
  next
    case False
    obtain r1 s1 ev1 where b: "BuildSingleNode c G x s = (r1, s1, ev1)" by (metis prod_cases3)
    show ?thesis
    proof (cases r1)
      case (Inl e)
      with False b show ?thesis by simp
    next
      case (Inr ok)
      with False b show ?thesis
        by (cases ok) (simp_all add: Cons.IH split: prod.splits sum.splits bool.splits)
    qed
  qed
qed

lemma BuildSingleNode_event_names:
  assumes "BuildSingleNode c G n s = (r, s', ev)"
  shows "(EvBuild nm \<in> set ev \<longrightarrow> nm = Name n) \<and> EvIsComplete nm \<notin> set ev
         \<and> EvCheckLocalIntegrity nm \<notin> set ev \<and> EvCleanLocalNode nm \<notin> set ev \<and> EvCleanLocal \<notin> set ev"
proof -
  from BuildSingleNode_events[OF assms] obtain ev1 k m' tl where
    ev1: "\<forall>e \<in> set ev1. \<exists>a b. e = EvRetreive a b" and
    ev: "ev = ev1 @ tl" and
    tl: "set tl \<subseteq> {EvBuild (Name n), EvMarkAsComplete (Name n)}
                      \<union> set (map (\<lambda>t. EvArchive (Name n) t (the (the (m' t))) (t \<in> set (ReferencedOutputs G n)))
                            (take k (OutputNames n)))"
    by blast
  have a: "\<And>e. e \<in> set ev \<Longrightarrow> (\<exists>a b. e = EvRetreive a b) \<or> e = EvBuild (Name n)
              \<or> e = EvMarkAsComplete (Name n) \<or> (\<exists>a b d f. e = EvArchive a b d f)"
    using ev ev1 tl by auto
  show ?thesis
    by (intro conjI impI notI; drule a) auto
qed

lemma ExecuteNodes_event_names:
  "ExecuteNodes c G xs s = (r, s', ev) \<Longrightarrow>
     (EvBuild nm \<in> set ev \<or> EvIsComplete nm \<in> set ev) \<Longrightarrow> nm \<in> Name ` set xs"
proof (induction xs arbitrary: s r s' ev)
  case Nil
  then show ?case by simp
next
  case (Cons x xs)
  show ?case
  proof (cases "IsComplete c s (Name x)")
    case True
    with Cons.prems obtain ev2 where "ExecuteNodes c G xs s = (r, s', ev2)" "ev = EvIsComplete (Name x) # ev2"
      by (auto split: prod.splits)
    with Cons.IH[of s r s' ev2] Cons.prems(2) show ?thesis by auto
  next
    case False
    obtain r1 s1 ev1 where b: "BuildSingleNode c G x s = (r1, s1, ev1)" by (metis prod_cases3)
    note N = BuildSingleNode_event_names[OF b, of nm]
    show ?thesis
    proof (cases "r1 = Inr True")
      case True
      with False b Cons.prems obtain ev2 where "ExecuteNodes c G xs s1 = (r, s', ev2)"
          "ev = EvIsComplete (Name x) # ev1 @ ev2"
        by (auto split: prod.splits)
      with Cons.IH[of s1 r s' ev2] Cons.prems(2) N show ?thesis by auto
    next
      case no: False
      with False b Cons.prems have "ev = EvIsComplete (Name x) # ev1"
        by (cases r1) (auto split: bool.splits)
      with Cons.prems(2) N show ?thesis by auto
    qed
  qed
qed

lemma IntegrityPass_events:
  "IntegrityPass c xs C s = (cl, s', ev) \<Longrightarrow> e \<in> set ev \<Longrightarrow>
     (\<exists>x \<in> set xs. e = EvCheckLocalIntegrity (Name x) \<or> e = EvCleanLocalNode (Name x))"
proof (induction xs arbitrary: C s cl s' ev)
  case Nil
  then show ?case by simp
next
  case (Cons x xs)
  then show ?case
    by (fastforce split: if_splits prod.splits)
qed

lemma Execute_command:
  assumes "ScriptFileName a = Some Script" and "TargetNames a = Some Targets"
    and "FindAvailableTasks c [] (bPublicTasksOnly a) = (True, NameToTask, evT)"
    and "TryRead c Script = Some G0"
    and "ResolveTargets c G0 (map Trim (SplitRemoveEmptyEntries CHR ''+'' Targets)) [] = Inr TargetNodes"
    and "ActiveTriggers (Select c G0 TargetNodes) a = Inr Triggers"
    and "case SingleNodeName a of
           None \<Rightarrow> SingleNode = None
         | Some nm \<Rightarrow> SingleNode \<noteq> None \<and> map_of (NameToNode (Select c G0 TargetNodes)) nm = SingleNode"
    and "CleanRequests c a s = (s0, evC)"
    and "RunCommand c a (Select c G0 TargetNodes) Triggers SingleNode s0 = (r, s', ev)"
  shows "Execute c a s = (r, s', evT @ SchemaEvents a @ evC @ ev)"
  using assms
  by (cases "SingleNodeName a") (auto simp: Execute_def ExecuteGraph_def Let_def)

text \<open>
  C5: \<^verbatim>\<open>BuildAllNodes\<close> fails fast. When the nodes before \<open>n\<close> in the order were
  built or skipped without failure and \<^verbatim>\<open>BuildSingleNode\<close> returns false for \<open>n\<close>,
  \<^verbatim>\<open>BuildAllNodes\<close> returns false with the storage and the calls as they are right
  after that failed build, whatever nodes come after \<open>n\<close>: no later node is asked for
  its completion or built (the integrity pass over all nodes has run before the first
  build). \<^verbatim>\<open>Execute\<close>, reaching \<^verbatim>\<open>BuildAllNodes\<close> for that graph, returns the error exit
  code with the same calls.
\<close>

theorem BuildAllNodes_fails_fast:
  assumes script: "ScriptFileName a = Some Script" and targets: "TargetNames a = Some Targets"
    and tasks: "FindAvailableTasks c [] (bPublicTasksOnly a) = (True, NameToTask, evT)"
    and read: "TryRead c Script = Some G0"
    and resolved: "ResolveTargets c G0 (map Trim (SplitRemoveEmptyEntries CHR ''+'' Targets)) [] = Inr TargetNodes"
    and G: "G = Select c G0 TargetNodes"
    and triggers: "ActiveTriggers G a = Inr Triggers"
    and mode: "SingleNodeName a = None" "\<not> bListOnly a" "ExportFileName a = None"
    and cleans: "CleanRequests c a s = (s0, evC)"
    and nodes: "AllNodes G = before @ n # after"
    and pass: "IntegrityPass c (AllNodes G) [] s0 = (cl, s1, ev0)"
    and ok: "ExecuteNodes c G before s1 = (Inr True, s2, ev1)"
    and todo: "\<not> IsComplete c s2 (Name n)"
    and fails: "BuildSingleNode c G n s2 = (Inr False, s3, ev2)"
  shows "BuildAllNodes c G s0 = (Inr False, s3, ev0 @ ev1 @ EvIsComplete (Name n) # ev2)
       \<and> (\<forall>x \<in> set after. Name x \<notin> Name ` set (before @ [n]) \<longrightarrow>
             EvIsComplete (Name x) \<notin> set (ev1 @ EvIsComplete (Name n) # ev2)
             \<and> EvBuild (Name x) \<notin> set (ev0 @ ev1 @ EvIsComplete (Name n) # ev2))
       \<and> Execute c a s
           = (Inr Error_Unknown, s3,
              evT @ SchemaEvents a @ evC @ ev0 @ ev1 @ EvIsComplete (Name n) # ev2)"
proof -
  have loop: "ExecuteNodes c G (before @ n # after) s1 = (Inr False, s3, ev1 @ EvIsComplete (Name n) # ev2)"
    using ok todo fails by (simp add: ExecuteNodes_append)
  with nodes pass have all: "BuildAllNodes c G s0 = (Inr False, s3, ev0 @ ev1 @ EvIsComplete (Name n) # ev2)"
    by (simp add: BuildAllNodes_def)
  have upto: "ExecuteNodes c G (before @ [n]) s1 = (Inr False, s3, ev1 @ EvIsComplete (Name n) # ev2)"
    using ok todo fails by (simp add: ExecuteNodes_append)
  have none: "\<forall>x \<in> set after. Name x \<notin> Name ` set (before @ [n]) \<longrightarrow>
             EvIsComplete (Name x) \<notin> set (ev1 @ EvIsComplete (Name n) # ev2)
             \<and> EvBuild (Name x) \<notin> set (ev0 @ ev1 @ EvIsComplete (Name n) # ev2)"
  proof (intro ballI impI)
    fix x assume "x \<in> set after" and fresh: "Name x \<notin> Name ` set (before @ [n])"
    from ExecuteNodes_event_names[OF upto, of "Name x"] fresh
    have a: "EvIsComplete (Name x) \<notin> set (ev1 @ EvIsComplete (Name n) # ev2)"
        "EvBuild (Name x) \<notin> set (ev1 @ EvIsComplete (Name n) # ev2)"
      by blast+
    have "EvBuild (Name x) \<notin> set ev0"
      using IntegrityPass_events[OF pass] by blast
    with a show "EvIsComplete (Name x) \<notin> set (ev1 @ EvIsComplete (Name n) # ev2)
             \<and> EvBuild (Name x) \<notin> set (ev0 @ ev1 @ EvIsComplete (Name n) # ev2)"
      by simp
  qed
  have cmd: "RunCommand c a (Select c G0 TargetNodes) Triggers None s0
               = (Inr Error_Unknown, s3, ev0 @ ev1 @ EvIsComplete (Name n) # ev2)"
    using all mode G by (simp add: RunCommand_def)
  have single: "case SingleNodeName a of
           None \<Rightarrow> (None :: Node option) = None
         | Some nm \<Rightarrow> (None :: Node option) \<noteq> None
             \<and> map_of (NameToNode (Select c G0 TargetNodes)) nm = None"
    using mode(1) by simp
  have "Execute c a s
           = (Inr Error_Unknown, s3,
              evT @ SchemaEvents a @ evC @ ev0 @ ev1 @ EvIsComplete (Name n) # ev2)"
    using Execute_command[OF script targets tasks read resolved triggers[unfolded G] single cleans cmd]
    by simp
  with all none show ?thesis by blast
qed

lemma Sample_Select_Deploy: "Select Sample SampleGraph [Deploy] = SampleGraph"
  by (simp add: Sample_def SpecCollaborators_def Spec_Select_def SampleGraph_def Deploy_def Package_def Compile_def)

theorem BuildAllNodes_fails_fast_witness:
  "Execute (Sample\<lparr>NodeBuild := PackageFails\<rparr>) (BuildTarget ''Deploy'') EmptyStorage
     = (Inr Error_Unknown, CompiledOnly,
        [EvCheckLocalIntegrity ''Compile'', EvCheckLocalIntegrity ''Package'',
         EvCheckLocalIntegrity ''Deploy'', EvIsComplete ''Compile'', EvBuild ''Compile'',
         EvArchive ''Compile'' ''Binaries'' [''/UE4/Binaries''] True,
         EvArchive ''Compile'' ''Symbols'' [''/UE4/Symbols''] False,
         EvMarkAsComplete ''Compile'', EvIsComplete ''Package'',
         EvRetreive ''Compile'' ''Binaries'', EvBuild ''Package''])
   \<and> fst (BuildAllNodes (Sample\<lparr>NodeBuild := PackageFails\<rparr>) SampleGraph EmptyStorage) = Inr False"
proof -
  let ?c = "Sample\<lparr>NodeBuild := PackageFails\<rparr>"
  let ?a = "BuildTarget ''Deploy''"
  have script: "ScriptFileName ?a = Some ''Build.xml''" and targets: "TargetNames ?a = Some ''Deploy''"
    and mode: "SingleNodeName ?a = None" "\<not> bListOnly ?a" "ExportFileName ?a = None"
    by (simp_all add: BuildTarget_def)
  have tasks: "FindAvailableTasks ?c [] (bPublicTasksOnly ?a)
      = (True, [(''Compile'', \<lparr>TaskName = ''Compile'', TaskType = ''CompileTask'',
                   TaskParametersType = ''CompileTaskParameters''\<rparr>)], [])"
    by code_simp
  have read: "TryRead ?c ''Build.xml'' = Some SampleGraph"
    by (simp add: Sample_def SpecCollaborators_def SampleReader_def)
  have resolved: "ResolveTargets ?c SampleGraph (map Trim (SplitRemoveEmptyEntries CHR ''+'' ''Deploy'')) []
      = Inr [Deploy]"
    by code_simp
  have G: "SampleGraph = Select ?c SampleGraph [Deploy]"
    by (simp add: Sample_Select_Deploy)
  have triggers: "ActiveTriggers SampleGraph ?a = Inr []"
    by code_simp
  have cleans: "CleanRequests ?c ?a EmptyStorage = (EmptyStorage, [])"
    by code_simp
  have nodes: "AllNodes SampleGraph = [Compile] @ Package # [Deploy]"
    by code_simp
  have pass: "IntegrityPass ?c (AllNodes SampleGraph) [] EmptyStorage
      = ([], EmptyStorage, [EvCheckLocalIntegrity ''Compile'', EvCheckLocalIntegrity ''Package'',
         EvCheckLocalIntegrity ''Deploy''])"
    by code_simp
  have ok: "ExecuteNodes ?c SampleGraph [Compile] EmptyStorage
      = (Inr True, CompiledOnly,
         [EvIsComplete ''Compile'', EvBuild ''Compile'',
          EvArchive ''Compile'' ''Binaries'' [''/UE4/Binaries''] True,
          EvArchive ''Compile'' ''Symbols'' [''/UE4/Symbols''] False,
          EvMarkAsComplete ''Compile''])"
    by code_simp
  have todo: "\<not> IsComplete ?c CompiledOnly (Name Package)"
    by code_simp
  have fails: "BuildSingleNode ?c SampleGraph Package CompiledOnly
      = (Inr False, CompiledOnly, [EvRetreive ''Compile'' ''Binaries'', EvBuild ''Package''])"
    by code_simp
  from BuildAllNodes_fails_fast[OF script targets tasks read resolved G triggers mode cleans nodes pass ok todo fails]
  show ?thesis
    by (simp add: SchemaEvents_def BuildTarget_def Package_def)
qed

section \<open>Complete nodes are skipped\<close>

lemma IntegrityPass_append:
  "IntegrityPass c (xs @ ys) C s =
     (case IntegrityPass c xs C s of
        (c1, s1, e1) \<Rightarrow>
          (case IntegrityPass c ys c1 s1 of (c2, s2, e2) \<Rightarrow> (c2, s2, e1 @ e2)))"
  by (induction xs arbitrary: C s) (auto split: prod.splits)

lemma IntegrityPass_keeps_marker:
  "MarkersPersist c \<Longrightarrow> IntegrityPass c xs C s = (cl, s1, ev) \<Longrightarrow>
     \<forall>x \<in> set xs. Name x \<noteq> nm \<Longrightarrow> IsComplete c s nm \<Longrightarrow> IsComplete c s1 nm"
proof (induction xs arbitrary: C s cl s1 ev)
  case Nil
  then show ?case by simp
next
  case (Cons x xs)
  from Cons.prems(3) have ne: "nm \<noteq> Name x" and rest: "\<forall>x \<in> set xs. Name x \<noteq> nm" by auto
  from Cons.prems(1) ne Cons.prems(4) have keep: "IsComplete c (CleanLocalNode c s (Name x)) nm"
    unfolding MarkersPersist_def by blast
  from Cons.prems(2) show ?case
    by (auto split: if_splits prod.splits
             intro: Cons.IH[OF Cons.prems(1) _ rest keep] Cons.IH[OF Cons.prems(1) _ rest Cons.prems(4)])
qed

lemma FetchInputs_keeps_marker:
  "MarkersPersist c \<Longrightarrow> FetchInputs c G ins m s = (r, s', ev) \<Longrightarrow>
     IsComplete c s nm \<Longrightarrow> IsComplete c s' nm"
proof (induction ins arbitrary: m s r s' ev)
  case Nil
  then show ?case by simp
next
  case (Cons i ins)
  show ?case
  proof (cases "map_of (OutputNameToNode G) i")
    case None
    with Cons.prems show ?thesis by simp
  next
    case (Some p)
    show ?thesis
    proof (cases "Retreive c s (Name p) i")
      case (Inl e)
      with Some Cons.prems show ?thesis by simp
    next
      case (Inr v)
      obtain Manifest s2 where v: "v = (Manifest, s2)" by (cases v)
      with Inr Cons.prems(1,3) have k: "IsComplete c s2 nm"
        unfolding MarkersPersist_def by blast
      from Some Inr v Cons.prems(2) obtain ev2 where
        "FetchInputs c G ins (m(i \<mapsto> Some (remdups (map (ToFileReference c) (Files Manifest))))) s2 = (r, s', ev2)"
        by (auto split: prod.splits)
      from Cons.IH[OF Cons.prems(1) this k] show ?thesis .
    qed
  qed
qed

lemma ArchiveOutputs_keeps_marker:
  "MarkersPersist c \<Longrightarrow> ArchiveOutputs c n refd m ts s = (r, s', ev) \<Longrightarrow>
     IsComplete c s nm \<Longrightarrow> IsComplete c s' nm"
proof (induction ts arbitrary: s r s' ev)
  case Nil
  then show ?case by simp
next
  case (Cons t ts)
  show ?case
  proof (cases "m t")
    case None
    with Cons.prems show ?thesis by simp
  next
    case (Some v)
    show ?thesis
    proof (cases v)
      case None
      with Some Cons.prems show ?thesis by simp
    next
      case (Some fs)
      from Cons.prems(1,3) have k: "IsComplete c (Archive c s (Name n) t fs (t \<in> set refd)) nm"
        unfolding MarkersPersist_def by blast
      from \<open>m t = Some v\<close> Some Cons.prems(2) obtain ev2 where
        "ArchiveOutputs c n refd m ts (Archive c s (Name n) t fs (t \<in> set refd)) = (r, s', ev2)"
        by (auto split: prod.splits)
      from Cons.IH[OF Cons.prems(1) this k] show ?thesis .
    qed
  qed
qed

lemma BuildSingleNode_keeps_marker:
  assumes f: "MarkersPersist c" and run: "BuildSingleNode c G n s = (r, s', ev)"
    and k: "IsComplete c s nm"
  shows "IsComplete c s' nm"
proof -
  obtain r1 s1 ev1 where a: "AssembleTagNames c G n s = (r1, s1, ev1)" by (metis prod_cases3)
  then obtain rf where "FetchInputs c G (InputNames n) (SeedTagNames G) s = (rf, s1, ev1)"
    by (auto simp: AssembleTagNames_def split: prod.splits sum.splits)
  from FetchInputs_keeps_marker[OF f this k] have k1: "IsComplete c s1 nm" .
  show ?thesis
  proof (cases r1)
    case (Inl e)
    with a run k1 show ?thesis by (auto simp: BuildSingleNode_def)
  next
    case (Inr m)
    obtain ok m' where b: "NodeBuild c n m = (ok, m')" by (metis surj_pair)
    show ?thesis
    proof (cases ok)
      case False
      with a Inr b run k1 show ?thesis by (auto simp: BuildSingleNode_def)
    next
      case True
      obtain r2 s2 ev2 where ar: "ArchiveOutputs c n (ReferencedOutputs G n) m' (OutputNames n) s1 = (r2, s2, ev2)"
        by (metis prod_cases3)
      from ArchiveOutputs_keeps_marker[OF f ar k1] have k2: "IsComplete c s2 nm" .
      with f have k3: "IsComplete c (MarkAsComplete c s2 (Name n)) nm"
        unfolding MarkersPersist_def by blast
      from a Inr b True ar run k2 k3 show ?thesis
        by (cases r2) (auto simp: BuildSingleNode_def)
    qed
  qed
qed

lemma ExecuteNodes_skips_complete:
  "MarkersPersist c \<Longrightarrow> ExecuteNodes c G xs s = (r, s', ev) \<Longrightarrow> IsComplete c s nm \<Longrightarrow>
     EvBuild nm \<notin> set ev"
proof (induction xs arbitrary: s r s' ev)
  case Nil
  then show ?case by simp
next
  case (Cons x xs)
  show ?case
  proof (cases "IsComplete c s (Name x)")
    case True
    with Cons.prems(2) obtain ev2 where "ExecuteNodes c G xs s = (r, s', ev2)" "ev = EvIsComplete (Name x) # ev2"
      by (auto split: prod.splits)
    with Cons.IH[OF Cons.prems(1) _ Cons.prems(3)] show ?thesis by auto
  next
    case False
    with Cons.prems(3) have ne: "nm \<noteq> Name x" by auto
    obtain r1 s1 ev1 where b: "BuildSingleNode c G x s = (r1, s1, ev1)" by (metis prod_cases3)
    from BuildSingleNode_event_names[OF b, of nm] ne have nb: "EvBuild nm \<notin> set ev1" by blast
    from BuildSingleNode_keeps_marker[OF Cons.prems(1) b Cons.prems(3)] have k1: "IsComplete c s1 nm" .
    show ?thesis
    proof (cases "r1 = Inr True")
      case True
      with False b Cons.prems(2) obtain ev2 where "ExecuteNodes c G xs s1 = (r, s', ev2)"
          "ev = EvIsComplete (Name x) # ev1 @ ev2"
        by (auto split: prod.splits)
      with Cons.IH[OF Cons.prems(1) _ k1] nb show ?thesis by auto
    next
      case no: False
      with False b Cons.prems(2) have "ev = EvIsComplete (Name x) # ev1"
        by (cases r1) (auto split: bool.splits)
      with nb show ?thesis by auto
    qed
  qed
qed

text \<open>
  C2: for every node \<open>N\<close> of the graph processed by \<^verbatim>\<open>BuildAllNodes\<close>, if
  \<^verbatim>\<open>IsComplete(N)\<close> is true and \<open>N\<close> passes the integrity pass (when the pass
  reaches \<open>N\<close>, none of its input dependencies has been cleaned and
  \<^verbatim>\<open>CheckLocalIntegrity\<close> succeeds), then \<^verbatim>\<open>Node.Build\<close> is not invoked for \<open>N\<close> in
  that run. No other node of the graph has the name of \<open>N\<close>, and the storage keeps
  completion markers as its contract says.
\<close>

theorem BuildAllNodes_skips_complete_node:
  assumes contract: "MarkersPersist c"
    and nodes: "AllNodes G = before @ N # after"
    and names: "\<forall>x \<in> set (before @ after). Name x \<noteq> Name N"
    and complete: "IsComplete c s (Name N)"
    and pre: "IntegrityPass c before [] s = (clp, sp, evp)"
    and deps: "\<forall>d \<in> set (InputDependencies N). d \<notin> set clp"
    and integrity: "CheckLocalIntegrity c sp (Name N) (OutputNames N)"
    and run: "BuildAllNodes c G s = (r, s', ev)"
  shows "EvBuild (Name N) \<notin> set ev"
proof -
  obtain cl s1 ev1 where pass: "IntegrityPass c (AllNodes G) [] s = (cl, s1, ev1)"
    by (metis prod_cases3)
  obtain cla sa eva where post: "IntegrityPass c after clp sp = (cla, sa, eva)"
    by (metis prod_cases3)
  have nodep: "\<not> list_ex (\<lambda>x. x \<in> set clp) (InputDependencies N)"
    using deps by (simp add: list_ex_iff)
  have "IntegrityPass c (N # after) clp sp = (cla, sa, EvCheckLocalIntegrity (Name N) # eva)"
    using nodep integrity post by simp
  with pass pre nodes have s1: "s1 = sa"
    by (simp add: IntegrityPass_append)
  from names have nb: "\<forall>x \<in> set before. Name x \<noteq> Name N" and na: "\<forall>x \<in> set after. Name x \<noteq> Name N"
    by auto
  from IntegrityPass_keeps_marker[OF contract pre nb complete] have "IsComplete c sp (Name N)" .
  from IntegrityPass_keeps_marker[OF contract post na this] s1 have k: "IsComplete c s1 (Name N)"
    by simp
  obtain r2 s2 ev2 where loop: "ExecuteNodes c G (AllNodes G) s1 = (r2, s2, ev2)"
    by (metis prod_cases3)
  from pass loop run have ev: "ev = ev1 @ ev2"
    by (simp add: BuildAllNodes_def)
  have "EvBuild (Name N) \<notin> set ev1"
    using IntegrityPass_events[OF pass] by blast
  moreover have "EvBuild (Name N) \<notin> set ev2"
    using ExecuteNodes_skips_complete[OF contract loop k] .
  ultimately show ?thesis using ev by simp
qed

lemma Spec_MarkersPersist: "MarkersPersist (SpecCollaborators root b rd asm)"
  unfolding MarkersPersist_def SpecCollaborators_def
  by (auto simp: Spec_IsComplete_def Spec_CleanLocalNode_def Spec_Retreive_def Spec_Archive_def
        Spec_MarkAsComplete_def Let_def split: option.splits)

lemma Sample_after_Compile_run:
  "BuildAllNodes Sample SampleGraph AfterCompile =
     (Inr True,
      \<lparr>UnchangedOnDisk = [''Binaries'', ''Symbols''],
       CompleteMarkers = [''Deploy'', ''Package'', ''Compile''],
       LocalManifests = [((''Deploy'', ''Deployed''), \<lparr>Files = [''Deployed'']\<rparr>),
                         ((''Package'', ''Archive''), \<lparr>Files = [''Archive'']\<rparr>),
                         ((''Compile'', ''Symbols''), \<lparr>Files = [''Symbols'']\<rparr>),
                         ((''Compile'', ''Binaries''), \<lparr>Files = [''Binaries'']\<rparr>)],
       SharedManifests = Some [((''Package'', ''Archive''), \<lparr>Files = [''Archive'']\<rparr>),
                               ((''Compile'', ''Binaries''), \<lparr>Files = [''Binaries'']\<rparr>)],
       bWriteToShared = True\<rparr>,
      [EvCheckLocalIntegrity ''Compile'', EvCheckLocalIntegrity ''Package'',
       EvCheckLocalIntegrity ''Deploy'', EvIsComplete ''Compile'', EvIsComplete ''Package'',
       EvRetreive ''Compile'' ''Binaries'', EvBuild ''Package'',
       EvArchive ''Package'' ''Archive'' [''/UE4/Archive''] True, EvMarkAsComplete ''Package'',
       EvIsComplete ''Deploy'', EvRetreive ''Package'' ''Archive'', EvBuild ''Deploy'',
       EvArchive ''Deploy'' ''Deployed'' [''/UE4/Deployed''] False, EvMarkAsComplete ''Deploy''])"
  by code_simp

theorem BuildAllNodes_skips_complete_node_witness:
  "IsComplete Sample AfterCompile ''Compile''
   \<and> CheckLocalIntegrity Sample AfterCompile ''Compile'' [''Binaries'', ''Symbols'']
   \<and> EvBuild ''Compile'' \<notin> set (snd (snd (BuildAllNodes Sample SampleGraph AfterCompile)))
   \<and> EvBuild ''Package'' \<in> set (snd (snd (BuildAllNodes Sample SampleGraph AfterCompile)))"
proof -
  have contract: "MarkersPersist Sample"
    unfolding Sample_def by (rule Spec_MarkersPersist)
  have nodes: "AllNodes SampleGraph = [] @ Compile # [Package, Deploy]"
    by code_simp
  have names: "\<forall>x \<in> set ([] @ [Package, Deploy]). Name x \<noteq> Name Compile"
    by (simp add: Package_def Deploy_def Compile_def)
  have complete: "IsComplete Sample AfterCompile (Name Compile)"
    by code_simp
  have pre: "IntegrityPass Sample [] [] AfterCompile = ([], AfterCompile, [])"
    by simp
  have deps: "\<forall>d \<in> set (InputDependencies Compile). d \<notin> set []"
    by simp
  have integrity: "CheckLocalIntegrity Sample AfterCompile (Name Compile) (OutputNames Compile)"
    by code_simp
  from BuildAllNodes_skips_complete_node[OF contract nodes names complete pre deps integrity Sample_after_Compile_run]
    complete integrity
  show ?thesis
    by (simp add: Sample_after_Compile_run Compile_def)
qed

section \<open>Cleaning is infectious\<close>

lemma IntegrityPass_grows:
  "IntegrityPass c xs C s = (cl, s', ev) \<Longrightarrow> set C \<subseteq> set cl \<and> set cl \<subseteq> set C \<union> set xs"
proof (induction xs arbitrary: C s cl s' ev)
  case Nil
  then show ?case by simp
next
  case (Cons x xs)
  from Cons.prems show ?case
    by (auto split: if_splits prod.splits dest!: Cons.IH)
qed








section \<open>Configuration errors\<close>

lemma map_of_keys: "map_of d k \<noteq> None \<longleftrightarrow> k \<in> set (map fst d)"
  using map_of_eq_None_iff[of d k] by auto

text \<open>The scan, one attribute after the other.\<close>

lemma DiscoveryAccepts_Nil: "DiscoveryAccepts known []"
  by (simp add: DiscoveryAccepts_def AttributeNames_def)

lemma DiscoveryAccepts_Cons:
  "DiscoveryAccepts known ((T, x) # rest) \<longleftrightarrow>
     IsSubclassOfCustomTask T \<and> AttrName x \<notin> set known
     \<and> DiscoveryAccepts (known @ [AttrName x]) rest"
  unfolding DiscoveryAccepts_def AttributeNames_def list_all_iff
  by (auto simp: image_iff)

lemma DiscoveryAccepts_append:
  "DiscoveryAccepts known (xs @ ys) \<longleftrightarrow>
     DiscoveryAccepts known xs \<and> DiscoveryAccepts (known @ AttributeNames xs) ys"
proof (induction xs arbitrary: known)
  case Nil
  show ?case by (simp add: DiscoveryAccepts_Nil AttributeNames_def)
next
  case (Cons p xs)
  obtain T x where p: "p = (T, x)" by (cases p)
  have names: "known @ AttributeNames ((T, x) # xs) = (known @ [AttrName x]) @ AttributeNames xs"
    by (simp add: AttributeNames_def)
  show ?case
    unfolding p append_Cons DiscoveryAccepts_Cons names Cons.IH[of "known @ [AttrName x]"]
    by blast
qed

lemma DiscoveryAccepts_distinct:
  "DiscoveryAccepts known scanned \<Longrightarrow> distinct (AttributeNames scanned)"
  by (simp add: DiscoveryAccepts_def)

lemma TaskDiscoveryError_Nil: "\<not> TaskDiscoveryError known [] msg"
  by (simp add: TaskDiscoveryError_def)

lemma TaskDiscoveryError_Cons:
  "TaskDiscoveryError known ((T, x) # rest) msg \<longleftrightarrow>
     (if IsSubclassOfCustomTask T \<and> AttrName x \<notin> set known
      then TaskDiscoveryError (known @ [AttrName x]) rest msg
      else msg = (if IsSubclassOfCustomTask T then MultipleHandlers (AttrName x)
                  else NotDerivedFromTask (TypeName T)))"
proof
  assume "TaskDiscoveryError known ((T, x) # rest) msg"
  then obtain pre U y post where split: "(T, x) # rest = pre @ (U, y) # post"
    and acc: "DiscoveryAccepts known pre"
    and off: "if IsSubclassOfCustomTask U
           then AttrName y \<in> set (known @ AttributeNames pre) \<and> msg = MultipleHandlers (AttrName y)
           else msg = NotDerivedFromTask (TypeName U)"
    unfolding TaskDiscoveryError_def by blast
  show "if IsSubclassOfCustomTask T \<and> AttrName x \<notin> set known
      then TaskDiscoveryError (known @ [AttrName x]) rest msg
      else msg = (if IsSubclassOfCustomTask T then MultipleHandlers (AttrName x)
                  else NotDerivedFromTask (TypeName T))"
  proof (cases pre)
    case Nil
    with split have "U = T" "y = x" by simp_all
    with off Nil show ?thesis by (auto simp: AttributeNames_def)
  next
    case (Cons p pre')
    with split have p: "p = (T, x)" and rest: "rest = pre' @ (U, y) # post" by simp_all
    from acc Cons p have ok: "IsSubclassOfCustomTask T" "AttrName x \<notin> set known"
      and acc': "DiscoveryAccepts (known @ [AttrName x]) pre'"
      by (simp_all add: DiscoveryAccepts_Cons)
    from off Cons p have off': "if IsSubclassOfCustomTask U
           then AttrName y \<in> set ((known @ [AttrName x]) @ AttributeNames pre') \<and> msg = MultipleHandlers (AttrName y)
           else msg = NotDerivedFromTask (TypeName U)"
      by (auto simp: AttributeNames_def split: if_splits)
    from rest acc' off' have "TaskDiscoveryError (known @ [AttrName x]) rest msg"
      unfolding TaskDiscoveryError_def by blast
    with ok show ?thesis by simp
  qed
next
  assume r: "if IsSubclassOfCustomTask T \<and> AttrName x \<notin> set known
      then TaskDiscoveryError (known @ [AttrName x]) rest msg
      else msg = (if IsSubclassOfCustomTask T then MultipleHandlers (AttrName x)
                  else NotDerivedFromTask (TypeName T))"
  show "TaskDiscoveryError known ((T, x) # rest) msg"
  proof (cases "IsSubclassOfCustomTask T \<and> AttrName x \<notin> set known")
    case True
    with r obtain pre U y post where rest: "rest = pre @ (U, y) # post"
      and acc: "DiscoveryAccepts (known @ [AttrName x]) pre"
      and off: "if IsSubclassOfCustomTask U
           then AttrName y \<in> set ((known @ [AttrName x]) @ AttributeNames pre) \<and> msg = MultipleHandlers (AttrName y)
           else msg = NotDerivedFromTask (TypeName U)"
      unfolding TaskDiscoveryError_def by auto
    from rest have a: "(T, x) # rest = ((T, x) # pre) @ (U, y) # post" by simp
    from acc True have b: "DiscoveryAccepts known ((T, x) # pre)" by (simp add: DiscoveryAccepts_Cons)
    from off have c: "if IsSubclassOfCustomTask U
           then AttrName y \<in> set (known @ AttributeNames ((T, x) # pre)) \<and> msg = MultipleHandlers (AttrName y)
           else msg = NotDerivedFromTask (TypeName U)"
      by (auto simp: AttributeNames_def split: if_splits)
    from a b c show ?thesis unfolding TaskDiscoveryError_def by blast
  next
    case False
    have a: "(T, x) # rest = [] @ (T, x) # rest" by simp
    from r False have c: "if IsSubclassOfCustomTask T
           then AttrName x \<in> set (known @ AttributeNames []) \<and> msg = MultipleHandlers (AttrName x)
           else msg = NotDerivedFromTask (TypeName T)"
      by (auto simp: AttributeNames_def)
    from a DiscoveryAccepts_Nil[of known] c show ?thesis unfolding TaskDiscoveryError_def by blast
  qed
qed



lemma TaskDiscoveryError_earlier:
  "TaskDiscoveryError known s1 msg \<Longrightarrow> TaskDiscoveryError known (s1 @ s2) msg"
proof (induction s1 arbitrary: known)
  case Nil
  then show ?case by (simp add: TaskDiscoveryError_Nil)
next
  case (Cons p rest)
  obtain T x where p: "p = (T, x)" by (cases p)
  from Cons.prems Cons.IH[of "known @ [AttrName x]"] show ?case
    unfolding p append_Cons TaskDiscoveryError_Cons
    by (auto split: if_splits)
qed

lemma TaskDiscoveryError_later:
  "DiscoveryAccepts known s1 \<Longrightarrow> TaskDiscoveryError (known @ AttributeNames s1) s2 msg \<Longrightarrow>
     TaskDiscoveryError known (s1 @ s2) msg"
proof (induction s1 arbitrary: known)
  case Nil
  then show ?case by (simp add: AttributeNames_def)
next
  case (Cons p rest)
  obtain T x where p: "p = (T, x)" by (cases p)
  from Cons.prems have acc: "IsSubclassOfCustomTask T" "AttrName x \<notin> set known"
    "DiscoveryAccepts (known @ [AttrName x]) rest"
    unfolding p DiscoveryAccepts_Cons by simp_all
  from Cons.prems(2) have "TaskDiscoveryError ((known @ [AttrName x]) @ AttributeNames rest) s2 msg"
    unfolding p by (simp add: AttributeNames_def)
  from Cons.IH[OF acc(3) this] acc(1,2) show ?case
    unfolding p append_Cons TaskDiscoveryError_Cons by simp
qed

lemma AttributeNames_Pair: "AttributeNames (map (Pair T) as) = map AttrName as"
  by (simp add: AttributeNames_def comp_def)

lemma AttributeNames_append: "AttributeNames (xs @ ys) = AttributeNames xs @ AttributeNames ys"
  by (simp add: AttributeNames_def)

lemma ScannedAttributes_names: "AttributeNames (ScannedAttributes As) = TaskElementNames As"
proof -
  have inner: "\<And>Ts. AttributeNames (concat (map (\<lambda>T. map (Pair T) (TaskElementAttributes T)) Ts))
      = map AttrName (concat (map TaskElementAttributes Ts))"
  proof -
    fix Ts show "AttributeNames (concat (map (\<lambda>T. map (Pair T) (TaskElementAttributes T)) Ts))
      = map AttrName (concat (map TaskElementAttributes Ts))"
      by (induction Ts) (simp_all add: AttributeNames_def comp_def)
  qed
  show ?thesis unfolding ScannedAttributes_def TaskElementNames_def by (rule inner)
qed

lemma AddTaskElements_result:
  "AddTaskElements T as d = (ok, d', ev) \<Longrightarrow>
     (ok \<longrightarrow> map fst d' = map fst d @ map AttrName as \<and> ev = []
             \<and> DiscoveryAccepts (map fst d) (map (Pair T) as))
     \<and> (\<not> ok \<longrightarrow> (\<exists>msg. ev = [EvLogError msg]
             \<and> TaskDiscoveryError (map fst d) (map (Pair T) as) msg))"
proof (induction as arbitrary: d ok d' ev)
  case Nil
  then show ?case by (auto simp: DiscoveryAccepts_Nil)
next
  case (Cons x as)
  show ?case
  proof (cases "\<not> IsSubclassOfCustomTask T")
    case True
    with Cons.prems have "\<not> ok" "ev = [EvLogError (NotDerivedFromTask (TypeName T))]"
      by auto
    with True show ?thesis by (simp add: TaskDiscoveryError_Cons)
  next
    case sub: False
    show ?thesis
    proof (cases "map_of d (AttrName x) \<noteq> None")
      case True
      then have "AttrName x \<in> set (map fst d)" using map_of_keys[of d "AttrName x"] by auto
      moreover from Cons.prems sub True have "\<not> ok"
        "ev = [EvLogError (MultipleHandlers (AttrName x))]"
        by auto
      ultimately show ?thesis using sub by (simp add: TaskDiscoveryError_Cons)
    next
      case False
      then have new: "AttrName x \<notin> set (map fst d)" using map_of_keys[of d "AttrName x"] by auto
      let ?d = "d @ [(AttrName x, \<lparr>TaskName = AttrName x, TaskType = TypeName T,
              TaskParametersType = ParametersType x\<rparr>)]"
      have keys: "map fst ?d = map fst d @ [AttrName x]" by simp
      from Cons.prems sub False have rec: "AddTaskElements T as ?d = (ok, d', ev)" by simp
      note IH = Cons.IH[OF rec, unfolded keys]
      show ?thesis
      proof (cases ok)
        case True
        with IH have "map fst d' = (map fst d @ [AttrName x]) @ map AttrName as" "ev = []"
          "DiscoveryAccepts (map fst d @ [AttrName x]) (map (Pair T) as)" by blast+
        with new sub True show ?thesis by (simp add: DiscoveryAccepts_Cons)
      next
        case no: False
        with IH obtain msg where m: "ev = [EvLogError msg]"
          "TaskDiscoveryError (map fst d @ [AttrName x]) (map (Pair T) as) msg" by blast
        from m(2) new sub
        have "TaskDiscoveryError (map fst d) (map (Pair T) (x # as)) msg"
          by (simp add: TaskDiscoveryError_Cons)
        with no m(1) show ?thesis by simp
      qed
    qed
  qed
qed

lemma AddTypes_result:
  "AddTypes Ts d = (ok, d', ev) \<Longrightarrow>
     (ok \<longrightarrow> map fst d' = map fst d
                 @ AttributeNames (concat (map (\<lambda>T. map (Pair T) (TaskElementAttributes T)) Ts))
             \<and> ev = []
             \<and> DiscoveryAccepts (map fst d)
                 (concat (map (\<lambda>T. map (Pair T) (TaskElementAttributes T)) Ts)))
     \<and> (\<not> ok \<longrightarrow> (\<exists>msg. ev = [EvLogError msg]
             \<and> TaskDiscoveryError (map fst d)
                 (concat (map (\<lambda>T. map (Pair T) (TaskElementAttributes T)) Ts)) msg))"
proof (induction Ts arbitrary: d ok d' ev)
  case Nil
  then show ?case by (auto simp: DiscoveryAccepts_Nil AttributeNames_def)
next
  case (Cons T Ts)
  let ?here = "map (Pair T) (TaskElementAttributes T)"
  let ?rest = "concat (map (\<lambda>T. map (Pair T) (TaskElementAttributes T)) Ts)"
  have all: "concat (map (\<lambda>T. map (Pair T) (TaskElementAttributes T)) (T # Ts)) = ?here @ ?rest"
    by simp
  obtain ok1 d1 ev1 where h: "AddTaskElements T (TaskElementAttributes T) d = (ok1, d1, ev1)"
    by (metis prod_cases3)
  note H = AddTaskElements_result[OF h]
  show ?case
  proof (cases ok1)
    case False
    with h Cons.prems have same: "ok = False" "ev = ev1" by auto
    from H False obtain msg where m: "ev1 = [EvLogError msg]"
      "TaskDiscoveryError (map fst d) ?here msg"
      by blast
    from TaskDiscoveryError_earlier[OF m(2), of ?rest]
    have "TaskDiscoveryError (map fst d) (?here @ ?rest) msg" .
    with same m(1) show ?thesis unfolding all by simp
  next
    case True
    with h Cons.prems have rec: "AddTypes Ts d1 = (ok, d', ev)" by simp
    from H True have d1: "map fst d1 = map fst d @ AttributeNames ?here"
      and acc1: "DiscoveryAccepts (map fst d) ?here"
      by (simp_all add: AttributeNames_Pair)
    note IH = Cons.IH[OF rec, unfolded d1]
    show ?thesis
    proof (cases ok)
      case True
      with IH have a: "map fst d' = (map fst d @ AttributeNames ?here) @ AttributeNames ?rest"
        "ev = []" "DiscoveryAccepts (map fst d @ AttributeNames ?here) ?rest" by blast+
      from a(1) have eq: "map fst d' = map fst d @ AttributeNames (?here @ ?rest)"
        by (simp add: AttributeNames_append)
      from acc1 a(3) have "DiscoveryAccepts (map fst d) (?here @ ?rest)"
        by (simp add: DiscoveryAccepts_append)
      with eq a(2) True show ?thesis unfolding all by blast
    next
      case False
      with IH obtain msg where m: "ev = [EvLogError msg]"
        "TaskDiscoveryError (map fst d @ AttributeNames ?here) ?rest msg" by blast
      from TaskDiscoveryError_later[OF acc1 m(2)]
      have "TaskDiscoveryError (map fst d) (?here @ ?rest) msg" .
      with False m(1) show ?thesis unfolding all by simp
    qed
  qed
qed

lemma AddAssemblies_result:
  "AddAssemblies As d = (ok, d', ev) \<Longrightarrow>
     (ok \<longrightarrow> map fst d' = map fst d @ AttributeNames (ScannedAttributes As) \<and> ev = []
             \<and> DiscoveryAccepts (map fst d) (ScannedAttributes As))
     \<and> (\<not> ok \<longrightarrow> (\<exists>msg. ev = [EvLogError msg]
             \<and> TaskDiscoveryError (map fst d) (ScannedAttributes As) msg))"
proof (induction As arbitrary: d ok d' ev)
  case Nil
  then show ?case by (auto simp: ScannedAttributes_def DiscoveryAccepts_Nil AttributeNames_def)
next
  case (Cons A As)
  let ?here = "concat (map (\<lambda>T. map (Pair T) (TaskElementAttributes T)) (Types A))"
  have all: "ScannedAttributes (A # As) = ?here @ ScannedAttributes As"
    by (simp add: ScannedAttributes_def)
  obtain ok1 d1 ev1 where h: "AddTypes (Types A) d = (ok1, d1, ev1)"
    by (metis prod_cases3)
  note H = AddTypes_result[OF h]
  show ?case
  proof (cases ok1)
    case False
    with h Cons.prems have same: "ok = False" "ev = ev1" by auto
    from H False obtain msg where m: "ev1 = [EvLogError msg]"
      "TaskDiscoveryError (map fst d) ?here msg"
      by blast
    from TaskDiscoveryError_earlier[OF m(2), of "ScannedAttributes As"]
    have "TaskDiscoveryError (map fst d) (?here @ ScannedAttributes As) msg" .
    with same m(1) show ?thesis unfolding all by simp
  next
    case True
    with h Cons.prems have rec: "AddAssemblies As d1 = (ok, d', ev)" by simp
    from H True have d1: "map fst d1 = map fst d @ AttributeNames ?here"
      and acc1: "DiscoveryAccepts (map fst d) ?here"
      by simp_all
    note IH = Cons.IH[OF rec, unfolded d1]
    show ?thesis
    proof (cases ok)
      case True
      with IH have a: "map fst d' = (map fst d @ AttributeNames ?here) @ AttributeNames (ScannedAttributes As)"
        "ev = []" "DiscoveryAccepts (map fst d @ AttributeNames ?here) (ScannedAttributes As)" by blast+
      from a(1) have eq: "map fst d' = map fst d @ AttributeNames (?here @ ScannedAttributes As)"
        by (simp add: AttributeNames_append)
      from acc1 a(3) have "DiscoveryAccepts (map fst d) (?here @ ScannedAttributes As)"
        by (simp add: DiscoveryAccepts_append)
      with eq a(2) True show ?thesis unfolding all by blast
    next
      case False
      with IH obtain msg where m: "ev = [EvLogError msg]"
        "TaskDiscoveryError (map fst d @ AttributeNames ?here) (ScannedAttributes As) msg" by blast
      from TaskDiscoveryError_later[OF acc1 m(2)]
      have "TaskDiscoveryError (map fst d) (?here @ ScannedAttributes As) msg" .
      with False m(1) show ?thesis unfolding all by simp
    qed
  qed
qed

lemma FindAvailableTasks_result:
  assumes "FindAvailableTasks c [] (bPublicTasksOnly a) = (ok, d, ev)"
  shows "(ok \<longrightarrow> ev = [] \<and> DiscoveryAccepts [] (ScannedAttributes (ScannedAssemblies c a))
              \<and> distinct (TaskElementNames (ScannedAssemblies c a)))
       \<and> (\<not> ok \<longrightarrow> (\<exists>msg. ev = [EvLogError msg]
             \<and> TaskDiscoveryError [] (ScannedAttributes (ScannedAssemblies c a)) msg))"
proof -
  from assms have "AddAssemblies (ScannedAssemblies c a) [] = (ok, d, ev)"
    by (simp add: FindAvailableTasks_def ScannedAssemblies_def)
  from AddAssemblies_result[OF this] DiscoveryAccepts_distinct[of "[]" "ScannedAttributes (ScannedAssemblies c a)"]
  show ?thesis unfolding ScannedAttributes_names by auto
qed







lemma ActivateTriggers_known:
  "list_all (\<lambda>t. map_of (NameToTrigger G) t \<noteq> None) ts \<Longrightarrow> \<exists>Triggers. ActivateTriggers G ts T = Inr Triggers"
proof (induction ts arbitrary: T)
  case Nil
  then show ?case by simp
next
  case (Cons x ts)
  then obtain tr where "map_of (NameToTrigger G) x = Some tr" by auto
  with Cons.IH[of "AddWithParents tr T"] Cons.prems show ?case by auto
qed




section \<open>Building a single node\<close>

text \<open>
  C10 as stated, for any command line with \<^verbatim>\<open>-SingleNode=\<close> whose name is a node of
  the trimmed graph, does not hold. With \<^verbatim>\<open>-ListOnly\<close> as well, \<^verbatim>\<open>Execute\<close> asks
  \<^verbatim>\<open>IsComplete\<close> for every node, prints the graph and builds nothing (\<^verbatim>\<open>-Export=\<close>
  takes precedence in the same way). When the manifest of an input of the node is in
  neither tier of the storage, \<^verbatim>\<open>BuildSingleNode\<close> raises before it reaches
  \<^verbatim>\<open>Node.Build\<close>. And with a \<^verbatim>\<open>-Trigger=\<close> name that is not a trigger of the trimmed
  graph, \<^verbatim>\<open>Execute\<close> logs the error and returns before it looks the node up: nothing
  is built.
\<close>

theorem Execute_SingleNode_ListOnly_counterexample:
  "map_of (NameToNode (Select Sample SampleGraph [Deploy])) ''Package'' = Some Package
   \<and> Execute Sample ((SingleNodeOf ''Deploy'' ''Package'')\<lparr>bListOnly := True\<rparr>) AfterCompile
       = (Inr Success, AfterCompile,
          [EvIsComplete ''Compile'', EvIsComplete ''Package'', EvIsComplete ''Deploy'',
           EvPrint [''Compile''] False False])
   \<and> Execute Sample (SingleNodeOf ''Deploy'' ''Package'') (EmptyStorage\<lparr>SharedManifests := None\<rparr>)
       = (Inl (MissingOutput ''Compile'' ''Binaries''), EmptyStorage\<lparr>SharedManifests := None\<rparr>,
          [EvRetreive ''Compile'' ''Binaries''])
   \<and> map_of (NameToNode (Select Sample SampleGraph [Deploy])) ''Compile'' = Some Compile
   \<and> Execute Sample ((SingleNodeOf ''Deploy'' ''Compile'')\<lparr>TriggerParam := ''Nope''\<rparr>) EmptyStorage
       = (Inr Error_Unknown, EmptyStorage, [EvLogError (TriggerNotFound ''Nope'')])"
  by code_simp

text \<open>
  C10, amended: when \<^verbatim>\<open>Execute\<close> is invoked with \<^verbatim>\<open>-Script=\<close>, \<^verbatim>\<open>-Target=\<close> and
  \<^verbatim>\<open>-SingleNode=<name>\<close>, without \<^verbatim>\<open>-ListOnly\<close> and without \<^verbatim>\<open>-Export=\<close>, the
  configuration is valid (the task discovery succeeds, the script is read, every target
  resolves, and every name given with \<^verbatim>\<open>-Trigger=\<close> is a trigger of the trimmed graph),
  and the name is a node of the trimmed graph, then \<^verbatim>\<open>BuildSingleNode\<close> is invoked for
  that node unconditionally, on the storage left by the clean requests of the command
  line: the exit code is its result and the storage returned is the one it leaves,
  \<^verbatim>\<open>Execute\<close> makes no \<^verbatim>\<open>IsComplete\<close> and no \<^verbatim>\<open>CheckLocalIntegrity\<close> call and cleans no
  node that \<^verbatim>\<open>-CleanNode=\<close> did not name, and \<^verbatim>\<open>Node.Build\<close> is called as soon as the
  inputs of the node were retrieved, whether or not the node is marked complete.
\<close>

theorem Execute_SingleNode_builds_unconditionally:
  assumes script: "ScriptFileName a = Some Script" and targets: "TargetNames a = Some Targets"
    and tasks: "FindAvailableTasks c [] (bPublicTasksOnly a) = (True, NameToTask, evT)"
    and read: "TryRead c Script = Some G0"
    and resolved: "ResolveTargets c G0 (map Trim (SplitRemoveEmptyEntries CHR ''+'' Targets)) [] = Inr TargetNodes"
    and G: "G = Select c G0 TargetNodes"
    and triggers: "list_all (\<lambda>t. map_of (NameToTrigger G) t \<noteq> None)
                     (SplitRemoveEmptyEntries CHR ''+'' (TriggerParam a))"
    and single: "SingleNodeName a = Some nm" "map_of (NameToNode G) nm = Some n"
    and mode: "\<not> bListOnly a" "ExportFileName a = None"
    and cleans: "CleanRequests c a s = (s0, evC)"
    and run: "BuildSingleNode c G n s0 = (r, s', ev)"
    and exec: "Execute c a s = (r', s'', ev')"
  shows "r' = (case r of Inl e \<Rightarrow> Inl e | Inr ok \<Rightarrow> Inr (if ok then Success else Error_Unknown))
       \<and> s'' = s' \<and> ev' = SchemaEvents a @ evC @ ev
       \<and> (\<forall>x. EvIsComplete x \<notin> set ev' \<and> EvCheckLocalIntegrity x \<notin> set ev'
               \<and> (EvCleanLocalNode x \<in> set ev' \<longrightarrow> x \<in> set (CleanNodes a)))
       \<and> (\<forall>m s1 ev1. AssembleTagNames c G n s0 = (Inr m, s1, ev1) \<longrightarrow> EvBuild (Name n) \<in> set ev)"
proof -
  from FindAvailableTasks_result[OF tasks] have evT: "evT = []" by simp
  from ActivateTriggers_known[OF triggers, of "[]"] obtain Requested where
    "ActivateTriggers G (SplitRemoveEmptyEntries CHR ''+'' (TriggerParam a)) [] = Inr Requested"
    by blast
  then obtain Triggers where active: "ActiveTriggers G a = Inr Triggers"
    by (simp add: ActiveTriggers_def)
  let ?r = "case r of Inl e \<Rightarrow> Inl e | Inr ok \<Rightarrow> Inr (if ok then Success else Error_Unknown)"
  have cmd: "RunCommand c a (Select c G0 TargetNodes) Triggers (Some n) s0 = (?r, s', ev)"
    using run mode G by (cases r) (auto simp: RunCommand_def split: bool.splits)
  have sn: "case SingleNodeName a of
           None \<Rightarrow> Some n = None
         | Some nm \<Rightarrow> Some n \<noteq> None \<and> map_of (NameToNode (Select c G0 TargetNodes)) nm = Some n"
    using single G by simp
  from Execute_command[OF script targets tasks read resolved active[unfolded G] sn cleans cmd] exec evT
  have res: "r' = ?r" "s'' = s'" "ev' = SchemaEvents a @ evC @ ev" by simp_all
  from cleans have evC: "evC = (if bClean a then [EvCleanLocal] else []) @ map EvCleanLocalNode (CleanNodes a)"
    by (auto simp: CleanRequests_def)
  have calls: "EvIsComplete x \<notin> set ev' \<and> EvCheckLocalIntegrity x \<notin> set ev'
               \<and> (EvCleanLocalNode x \<in> set ev' \<longrightarrow> x \<in> set (CleanNodes a))" for x
    using BuildSingleNode_event_names[OF run, of x] res(3) evC
    by (auto simp: SchemaEvents_def split: option.splits)
  have built: "EvBuild (Name n) \<in> set ev" if "AssembleTagNames c G n s0 = (Inr m, s1, ev1)" for m s1 ev1
    using that run
    by (auto simp: BuildSingleNode_def split: prod.splits sum.splits bool.splits)
  from res calls built show ?thesis by blast
qed

theorem Execute_SingleNode_builds_unconditionally_witness:
  "IsComplete Sample AfterCompile ''Compile''
   \<and> SplitRemoveEmptyEntries CHR ''+'' ''Release'' = [''Release'']
   \<and> map_of (NameToTrigger SampleGraph) ''Release'' = Some Release
   \<and> fst (Execute Sample ((SingleNodeOf ''Deploy'' ''Compile'')\<lparr>TriggerParam := ''Release''\<rparr>) AfterCompile)
       = Inr Success
   \<and> EvBuild ''Compile'' \<in> set (snd (snd (Execute Sample
        ((SingleNodeOf ''Deploy'' ''Compile'')\<lparr>TriggerParam := ''Release''\<rparr>) AfterCompile)))
   \<and> EvIsComplete ''Compile'' \<notin> set (snd (snd (Execute Sample
        ((SingleNodeOf ''Deploy'' ''Compile'')\<lparr>TriggerParam := ''Release''\<rparr>) AfterCompile)))
   \<and> EvCheckLocalIntegrity ''Compile'' \<notin> set (snd (snd (Execute Sample
        ((SingleNodeOf ''Deploy'' ''Compile'')\<lparr>TriggerParam := ''Release''\<rparr>) AfterCompile)))"
proof -
  let ?a = "(SingleNodeOf ''Deploy'' ''Compile'')\<lparr>TriggerParam := ''Release''\<rparr>"
  have script: "ScriptFileName ?a = Some ''Build.xml''" and targets: "TargetNames ?a = Some ''Deploy''"
    and single: "SingleNodeName ?a = Some ''Compile''"
    and mode: "\<not> bListOnly ?a" "ExportFileName ?a = None"
    by (simp_all add: BuildTarget_def SingleNodeOf_def)
  have tasks: "FindAvailableTasks Sample [] (bPublicTasksOnly ?a)
      = (True, [(''Compile'', \<lparr>TaskName = ''Compile'', TaskType = ''CompileTask'',
                   TaskParametersType = ''CompileTaskParameters''\<rparr>)], [])"
    by code_simp
  have read: "TryRead Sample ''Build.xml'' = Some SampleGraph"
    by (simp add: Sample_def SpecCollaborators_def SampleReader_def)
  have resolved: "ResolveTargets Sample SampleGraph (map Trim (SplitRemoveEmptyEntries CHR ''+'' ''Deploy'')) []
      = Inr [Deploy]"
    by code_simp
  have G: "SampleGraph = Select Sample SampleGraph [Deploy]"
    by (simp add: Sample_Select_Deploy)
  have asked: "SplitRemoveEmptyEntries CHR ''+'' ''Release'' = [''Release'']"
    by code_simp
  have known: "map_of (NameToTrigger SampleGraph) ''Release'' = Some Release"
    by code_simp
  have triggers: "list_all (\<lambda>t. map_of (NameToTrigger SampleGraph) t \<noteq> None)
                     (SplitRemoveEmptyEntries CHR ''+'' (TriggerParam ?a))"
    using asked known by simp
  have node: "map_of (NameToNode SampleGraph) ''Compile'' = Some Compile"
    by code_simp
  have cleans: "CleanRequests Sample ?a AfterCompile = (AfterCompile, [])"
    by code_simp
  obtain r s' ev where run: "BuildSingleNode Sample SampleGraph Compile AfterCompile = (r, s', ev)"
    by (metis prod_cases3)
  obtain r' s'' ev' where exec: "Execute Sample ?a AfterCompile = (r', s'', ev')"
    by (metis prod_cases3)
  have tags: "AssembleTagNames Sample SampleGraph Compile AfterCompile
      = (Inr (PlaceholderOutputs Compile (SeedTagNames SampleGraph)), AfterCompile, [])"
    by (simp add: AssembleTagNames_def Compile_def)
  have complete: "IsComplete Sample AfterCompile ''Compile''"
    by code_simp
  have ok: "fst (BuildSingleNode Sample SampleGraph Compile AfterCompile) = Inr True"
    by code_simp
  note T = Execute_SingleNode_builds_unconditionally[OF script targets tasks read resolved G triggers single node mode cleans run exec]
  from T tags have "EvBuild (Name Compile) \<in> set ev" by blast
  moreover from T have "ev' = SchemaEvents ?a @ [] @ ev" by blast
  moreover from T have "EvIsComplete ''Compile'' \<notin> set ev'" "EvCheckLocalIntegrity ''Compile'' \<notin> set ev'"
    by blast+
  moreover from T ok run have "r' = Inr Success" by simp
  ultimately show ?thesis using complete exec asked known
    by (simp add: Compile_def)
qed

section \<open>Ambiguous outputs\<close>

text \<open>
  C1: a file that appears under two output tags of a node is an error, and the build
  is rejected: nothing is archived and the node is not marked complete.
  \<^verbatim>\<open>FindFileToOutputNameMapping\<close> is the check, and on the dictionary left by the build
  step of the sample it logs the error and returns false; but \<^verbatim>\<open>BuildSingleNode\<close> never
  calls it. Run on the specification's scenario, \<^verbatim>\<open>BuildSingleNode\<close> archives \<open>a.obj\<close>
  under both tags, marks the node complete and returns true.
\<close>

theorem BuildSingleNode_archives_ambiguous_output:
  "BuildSingleNode (Sample\<lparr>NodeBuild := WritesBoth\<rparr>) ObjGraph ObjCompile EmptyStorage
     = (Inr True,
        \<lparr>UnchangedOnDisk = [], CompleteMarkers = [''Compile''],
         LocalManifests = [((''Compile'', ''Debug''), \<lparr>Files = [''a.obj'']\<rparr>),
                           ((''Compile'', ''ObjFiles''), \<lparr>Files = [''a.obj'']\<rparr>)],
         SharedManifests = Some [], bWriteToShared = True\<rparr>,
        [EvBuild ''Compile'',
         EvArchive ''Compile'' ''ObjFiles'' [''/UE4/a.obj''] False,
         EvArchive ''Compile'' ''Debug'' [''/UE4/a.obj''] False,
         EvMarkAsComplete ''Compile''])
   \<and> fst (FindFileToOutputNameMapping (Sample\<lparr>NodeBuild := WritesBoth\<rparr>) ObjCompile
             (snd (WritesBoth ObjCompile (PlaceholderOutputs ObjCompile (SeedTagNames ObjGraph)))) [])
       = Inr False"
  by code_simp

section \<open>Triggers\<close>

text \<open>
  The set of active triggers that \<^verbatim>\<open>Execute\<close> computes holds, for every trigger name
  requested with \<^verbatim>\<open>-Trigger=\<close>, that trigger and all of its ancestors; with
  \<^verbatim>\<open>-SkipTriggers\<close> it holds every trigger of the graph; and it is closed upward
  under \<^verbatim>\<open>Parent\<close> (with \<^verbatim>\<open>-SkipTriggers\<close>, when the graph's trigger table is).
\<close>

lemma SelfAndAncestors_self: "t \<in> set (SelfAndAncestors t)"
  by (induction t rule: SelfAndAncestors.induct) simp_all

lemma SelfAndAncestors_trans:
  "u \<in> set (SelfAndAncestors t) \<Longrightarrow> set (SelfAndAncestors u) \<subseteq> set (SelfAndAncestors t)"
  by (induction t rule: SelfAndAncestors.induct) auto

lemma AddWithParents_set:
  "set (AddWithParents t T) = set (SelfAndAncestors t) \<union> set T"
  by (induction t T rule: AddWithParents.induct) auto

lemma ActivateTriggers_closed:
  "ActivateTriggers G ts T = Inr R \<Longrightarrow>
     set T \<subseteq> set R
     \<and> (\<forall>nm \<in> set ts. \<exists>t. map_of (NameToTrigger G) nm = Some t \<and> set (SelfAndAncestors t) \<subseteq> set R)
     \<and> ((\<forall>t \<in> set T. set (SelfAndAncestors t) \<subseteq> set T)
           \<longrightarrow> (\<forall>t \<in> set R. set (SelfAndAncestors t) \<subseteq> set R))"
proof (induction ts arbitrary: T)
  case Nil
  then show ?case by simp
next
  case (Cons x ts)
  from Cons.prems obtain t where t: "map_of (NameToTrigger G) x = Some t"
    by (auto split: option.splits)
  with Cons.prems have rec: "ActivateTriggers G ts (AddWithParents t T) = Inr R" by simp
  note IH = Cons.IH[OF rec]
  have sub: "set T \<subseteq> set R" "set (SelfAndAncestors t) \<subseteq> set R"
    using IH by (auto simp: AddWithParents_set)
  have names: "\<forall>nm \<in> set (x # ts). \<exists>t. map_of (NameToTrigger G) nm = Some t \<and> set (SelfAndAncestors t) \<subseteq> set R"
    using IH t sub(2) by auto
  have closed: "\<forall>u \<in> set R. set (SelfAndAncestors u) \<subseteq> set R"
    if T: "\<forall>u \<in> set T. set (SelfAndAncestors u) \<subseteq> set T"
  proof -
    have "\<forall>u \<in> set (AddWithParents t T). set (SelfAndAncestors u) \<subseteq> set (AddWithParents t T)"
    proof
      fix u assume "u \<in> set (AddWithParents t T)"
      then consider "u \<in> set (SelfAndAncestors t)" | "u \<in> set T"
        by (auto simp: AddWithParents_set)
      then show "set (SelfAndAncestors u) \<subseteq> set (AddWithParents t T)"
      proof cases
        case 1
        from SelfAndAncestors_trans[OF this] show ?thesis by (auto simp: AddWithParents_set)
      next
        case 2
        with T show ?thesis by (auto simp: AddWithParents_set)
      qed
    qed
    with IH show ?thesis by blast
  qed
  from sub(1) names closed show ?case by blast
qed

lemma ActiveTriggers_closed_upward:
  assumes "ActiveTriggers G a = Inr Triggers"
  shows "(\<forall>nm \<in> set (SplitRemoveEmptyEntries CHR ''+'' (TriggerParam a)).
            \<exists>t. map_of (NameToTrigger G) nm = Some t \<and> set (SelfAndAncestors t) \<subseteq> set Triggers)
       \<and> (bSkipTriggers a \<longrightarrow> snd ` set (NameToTrigger G) \<subseteq> set Triggers)
       \<and> (\<not> bSkipTriggers a \<or>
            (\<forall>t \<in> snd ` set (NameToTrigger G). set (SelfAndAncestors t) \<subseteq> snd ` set (NameToTrigger G))
           \<longrightarrow> (\<forall>t \<in> set Triggers. set (SelfAndAncestors t) \<subseteq> set Triggers))"
proof -
  from assms obtain R where R: "ActivateTriggers G (SplitRemoveEmptyEntries CHR ''+'' (TriggerParam a)) [] = Inr R"
    and T: "Triggers = (if bSkipTriggers a then List.union R (map snd (NameToTrigger G)) else R)"
    by (auto simp: ActiveTriggers_def split: sum.splits)
  from ActivateTriggers_closed[OF R]
  have names: "\<forall>nm \<in> set (SplitRemoveEmptyEntries CHR ''+'' (TriggerParam a)).
            \<exists>t. map_of (NameToTrigger G) nm = Some t \<and> set (SelfAndAncestors t) \<subseteq> set R"
    and closed: "\<forall>t \<in> set R. set (SelfAndAncestors t) \<subseteq> set R"
    by simp_all
  have RT: "set R \<subseteq> set Triggers" using T by auto
  have one: "\<forall>nm \<in> set (SplitRemoveEmptyEntries CHR ''+'' (TriggerParam a)).
            \<exists>t. map_of (NameToTrigger G) nm = Some t \<and> set (SelfAndAncestors t) \<subseteq> set Triggers"
    using names RT by blast
  have two: "bSkipTriggers a \<longrightarrow> snd ` set (NameToTrigger G) \<subseteq> set Triggers"
    using T by auto
  have three: "\<forall>t \<in> set Triggers. set (SelfAndAncestors t) \<subseteq> set Triggers"
    if "\<not> bSkipTriggers a \<or>
            (\<forall>t \<in> snd ` set (NameToTrigger G). set (SelfAndAncestors t) \<subseteq> snd ` set (NameToTrigger G))"
  proof (cases "bSkipTriggers a")
    case False
    with T closed show ?thesis by simp
  next
    case True
    with that have tab: "\<forall>t \<in> snd ` set (NameToTrigger G). set (SelfAndAncestors t) \<subseteq> snd ` set (NameToTrigger G)"
      by simp
    from True T have TT: "set Triggers = set R \<union> snd ` set (NameToTrigger G)" by auto
    show ?thesis
    proof
      fix t assume "t \<in> set Triggers"
      with TT consider "t \<in> set R" | "t \<in> snd ` set (NameToTrigger G)" by auto
      then show "set (SelfAndAncestors t) \<subseteq> set Triggers"
      proof cases
        case 1
        with closed RT show ?thesis by blast
      next
        case 2
        with tab TT show ?thesis by blast
      qed
    qed
  qed
  from one two three show ?thesis by blast
qed

text \<open>
  C4: no node whose \<^verbatim>\<open>ControllingTrigger\<close> is inactive is executed. \<^verbatim>\<open>Execute\<close>
  computes the set of active triggers and hands it to \<^verbatim>\<open>Graph.Export\<close> only;
  \<^verbatim>\<open>BuildAllNodes\<close> and \<^verbatim>\<open>BuildSingleNode\<close> never read it. Run for the target
  \<open>Deploy\<close> with no trigger requested, the active set is empty, \<open>Deploy\<close> is
  behind the trigger \<open>Release\<close>, and \<open>Deploy\<close> is built all the same.
\<close>

theorem Execute_builds_node_behind_inactive_trigger:
  "ActiveTriggers (Select Sample SampleGraph [Deploy]) (BuildTarget ''Deploy'') = Inr []
   \<and> ControllingTrigger Deploy = Some Release
   \<and> fst (Execute Sample (BuildTarget ''Deploy'') EmptyStorage) = Inr Success
   \<and> snd (snd (Execute Sample (BuildTarget ''Deploy'') EmptyStorage))
       = [EvCheckLocalIntegrity ''Compile'', EvCheckLocalIntegrity ''Package'',
          EvCheckLocalIntegrity ''Deploy'', EvIsComplete ''Compile'', EvBuild ''Compile'',
          EvArchive ''Compile'' ''Binaries'' [''/UE4/Binaries''] True,
          EvArchive ''Compile'' ''Symbols'' [''/UE4/Symbols''] False,
          EvMarkAsComplete ''Compile'', EvIsComplete ''Package'',
          EvRetreive ''Compile'' ''Binaries'', EvBuild ''Package'',
          EvArchive ''Package'' ''Archive'' [''/UE4/Archive''] True,
          EvMarkAsComplete ''Package'', EvIsComplete ''Deploy'',
          EvRetreive ''Package'' ''Archive'', EvBuild ''Deploy'',
          EvArchive ''Deploy'' ''Deployed'' [''/UE4/Deployed''] False,
          EvMarkAsComplete ''Deploy'']"
  by code_simp

end
